theory Spec2Isabelle
  imports Main "HOL-Library.Word"
begin

unbundle bit_operations_syntax

section \<open>The MP4 demuxer of libmp4 (src/mp4\_demux.c)\<close>

text \<open>
  A shallow embedding of the parts of \<^verbatim>\<open>mp4_demux.c\<close> that build the per-sample index of a
  track, the chapter list and the final metadata, and of the query functions that read them.
  C's fixed-width integers are words; a pointer that may be \<^verbatim>\<open>NULL\<close> is an option; an
  array is a list whose length is the size of its allocation; a pointer to another track is
  the position of that track in the demuxer's track list.
\<close>

subsection \<open>Integers, errors, allocation\<close>

type_synonym u8 = "8 word"
type_synonym u16 = "16 word"
type_synonym u32 = "32 word"
type_synonym u64 = "64 word"

text \<open>
  The negative \<^verbatim>\<open>errno\<close> values the functions return. \<open>UNDEFINED\<close> is not a return
  value of the C code: it stands for an execution whose behaviour the C standard leaves
  undefined (an access outside an allocation, a division by zero).
\<close>

datatype error = EINVAL | EIO | ENOMEM | ENOENT | EEXIST | ENOBUFS | EPROTO | UNDEFINED

text \<open>
  Modelled from the spec: the macros \<^verbatim>\<open>MP4_RETURN_ERR_IF_FAILED(cond, err)\<close>,
  \<^verbatim>\<open>MP4_LOG_ERR_AND_RETURN_ERR_IF_FAILED(cond, err, ...)\<close> and
  \<^verbatim>\<open>MP4_RETURN_VAL_IF_FAILED(cond, err, val)\<close> are defined in \<^verbatim>\<open>mp4_log.h\<close>, which is not among
  the sources. They are read as their names and their uses say: when \<open>cond\<close> is false the
  function returns at once, \<open>err\<close> for the first two and \<open>val\<close> for the third (the message is
  logged); when \<open>cond\<close> is true nothing happens.
\<close>

text \<open>
  \<^verbatim>\<open>malloc\<close> and \<^verbatim>\<open>calloc\<close> may fail, and may return \<^verbatim>\<open>NULL\<close> for a request of
  0 bytes. The functions that allocate take an allocator: whether a request of that many
  bytes is served.
\<close>

type_synonym allocator = "nat \<Rightarrow> bool"

text \<open>The allocator that serves every request.\<close>

definition always_alloc :: allocator where
  "always_alloc n = True"

text \<open>\<^verbatim>\<open>MP4_MAC_TO_UNIX_EPOCH_OFFSET\<close> and \<^verbatim>\<open>MP4_CHAPTERS_MAX\<close>.\<close>

definition MP4_MAC_TO_UNIX_EPOCH_OFFSET :: u64 where
  "MP4_MAC_TO_UNIX_EPOCH_OFFSET = 0x7c25b080"

definition MP4_CHAPTERS_MAX :: nat where
  "MP4_CHAPTERS_MAX = 100"

definition MP4_REFERENCE_TYPE_DESCRIPTION :: u32 where
  "MP4_REFERENCE_TYPE_DESCRIPTION = 0x63647363"

definition MP4_REFERENCE_TYPE_CHAPTERS :: u32 where
  "MP4_REFERENCE_TYPE_CHAPTERS = 0x63686170"

subsection \<open>Data\<close>

text \<open>
  Modelled from the spec: the enumerations \<^verbatim>\<open>mp4_track_type\<close>, \<^verbatim>\<open>mp4_video_codec\<close>,
  \<^verbatim>\<open>mp4_audio_codec\<close> and \<^verbatim>\<open>mp4_metadata_cover_type\<close> are declared in \<^verbatim>\<open>libmp4.h\<close>, which
  is not among the sources; their members are the ones \<^verbatim>\<open>mp4_demux.c\<close> names. The first
  member of each is the value of zeroed memory.
\<close>

datatype mp4_track_type =
  MP4_TRACK_TYPE_UNKNOWN | MP4_TRACK_TYPE_VIDEO | MP4_TRACK_TYPE_AUDIO | MP4_TRACK_TYPE_HINT
  | MP4_TRACK_TYPE_METADATA | MP4_TRACK_TYPE_TEXT | MP4_TRACK_TYPE_CHAPTERS

datatype mp4_video_codec = MP4_VIDEO_CODEC_UNKNOWN | MP4_VIDEO_CODEC_AVC

datatype mp4_audio_codec = MP4_AUDIO_CODEC_UNKNOWN | MP4_AUDIO_CODEC_AAC

datatype mp4_metadata_cover_type =
  MP4_METADATA_COVER_TYPE_UNKNOWN | MP4_METADATA_COVER_TYPE_JPEG
  | MP4_METADATA_COVER_TYPE_PNG | MP4_METADATA_COVER_TYPE_BMP

record mp4_time_to_sample_entry =
  tts_sampleCount :: u32
  sampleDelta :: u32

record mp4_sample_to_chunk_entry =
  firstChunk :: u32
  samplesPerChunk :: u32
  sampleDescriptionIndex :: u32

text \<open>
  \<^verbatim>\<open>struct mp4_track\<close>. The fields \<open>tk_id\<close> and \<open>tk_type\<close> are \<^verbatim>\<open>id\<close> and \<^verbatim>\<open>type\<close>;
  \<open>ref\<close>, \<open>metadata\<close> and \<open>chapters\<close> point to tracks of the same list; \<^verbatim>\<open>prev\<close> and
  \<^verbatim>\<open>next\<close> are the order of the list.
\<close>

record mp4_track =
  tk_id :: u32
  tk_type :: mp4_track_type
  timescale :: u32
  duration :: u64
  creationTime :: u64
  modificationTime :: u64
  currentSample :: u32
  sampleCount :: u32
  sampleSize :: "u32 list option"
  sampleDecodingTime :: "u64 list option"
  sampleOffset :: "u64 list option"
  chunkCount :: u32
  chunkOffset :: "u64 list option"
  timeToSampleEntryCount :: u32
  timeToSampleEntries :: "mp4_time_to_sample_entry list option"
  sampleToChunkEntryCount :: u32
  sampleToChunkEntries :: "mp4_sample_to_chunk_entry list option"
  syncSampleEntryCount :: u32
  syncSampleEntries :: "u32 list option"
  referenceType :: u32
  referenceTrackId :: u32
  videoCodec :: mp4_video_codec
  videoWidth :: u32
  videoHeight :: u32
  audioCodec :: mp4_audio_codec
  audioChannelCount :: u32
  audioSampleSize :: u32
  audioSampleRate :: u32
  metadataContentEncoding :: "u8 list option"
  metadataMimeFormat :: "u8 list option"
  ref :: "nat option"
  metadata :: "nat option"
  chapters :: "nat option"

text \<open>
  \<^verbatim>\<open>struct mp4_demux\<close>, without the box tree. \<open>file_bytes\<close> is the content of the open file and
  \<open>fpos\<close> the position of its stream; \<open>track\<close> is the linked list of tracks from its head;
  the movie's \<^verbatim>\<open>timescale\<close>, \<^verbatim>\<open>duration\<close>, \<^verbatim>\<open>creationTime\<close> and \<^verbatim>\<open>modificationTime\<close> carry the
  prefix \<open>mv_\<close>. A C string is the list of the bytes before its terminator's place (the bytes
  copied from the file), so it may hold a zero byte itself.
\<close>

record mp4_demux =
  file_bytes :: "u8 list"
  fpos :: nat
  fileSize :: int
  track :: "mp4_track list"
  trackCount :: u32
  mv_timescale :: u32
  mv_duration :: u64
  mv_creationTime :: u64
  mv_modificationTime :: u64
  chaptersName :: "u8 list option list"
  chaptersTime :: "u64 list"
  chaptersCount :: u32
  finalMetadataCount :: u32
  finalMetadataKey :: "u8 list option list option"
  finalMetadataValue :: "u8 list option list option"
  udtaLocationKey :: "u8 list option"
  udtaLocationValue :: "u8 list option"
  finalCoverOffset :: int
  finalCoverSize :: u32
  finalCoverType :: mp4_metadata_cover_type
  udtaCoverOffset :: int
  udtaCoverSize :: u32
  udtaCoverType :: mp4_metadata_cover_type
  metaCoverOffset :: int
  metaCoverSize :: u32
  metaCoverType :: mp4_metadata_cover_type
  udtaMetadataCount :: u32
  udtaMetadataKey :: "u8 list option list option"
  udtaMetadataValue :: "u8 list option list option"
  metaMetadataCount :: u32
  metaMetadataKey :: "u8 list option list option"
  metaMetadataValue :: "u8 list option list option"

subsection \<open>Reading the file\<close>

text \<open>
  \<^verbatim>\<open>fseeko(file, off, SEEK_SET)\<close>: the position becomes \<open>off\<close>, also beyond the end of the
  file; a negative offset is refused with \<^verbatim>\<open>EINVAL\<close>. The offsets passed are \<^verbatim>\<open>uint64_t\<close>
  values converted to the signed \<^verbatim>\<open>off_t\<close>.
\<close>

definition fseeko_set :: "mp4_demux \<Rightarrow> int \<Rightarrow> error + mp4_demux" where
  "fseeko_set demux off = (if off < 0 then Inl EINVAL else Inr (demux\<lparr>fpos := nat off\<rparr>))"

text \<open>
  \<^verbatim>\<open>fread(buf, n, 1, file)\<close>: one item of \<open>n\<close> bytes. It returns 1 only when \<open>n\<close> is not 0
  and \<open>n\<close> bytes are left; otherwise the stream ends up at the end of the file (or stays,
  beyond it) and the call returns 0.
\<close>

definition fread_item :: "mp4_demux \<Rightarrow> nat \<Rightarrow> (u8 list) option \<times> mp4_demux" where
  "fread_item demux n =
     (if 0 < n \<and> fpos demux + n \<le> length (file_bytes demux)
      then (Some (take n (drop (fpos demux) (file_bytes demux))), demux\<lparr>fpos := fpos demux + n\<rparr>)
      else (None, demux\<lparr>fpos := (if n = 0 then fpos demux
                                    else max (fpos demux) (length (file_bytes demux)))\<rparr>))"

text \<open>The value of two bytes in network order (\<^verbatim>\<open>ntohs\<close> of what \<^verbatim>\<open>MP4_READ_16\<close> read).\<close>

definition be16 :: "u8 list \<Rightarrow> u16" where
  "be16 bs = push_bit 8 (ucast (bs ! 0)) OR ucast (bs ! 1)"

text \<open>
  The time conversion every query uses, \<^verbatim>\<open>(t * 1000000 + timescale / 2) / timescale\<close>, in
  64-bit unsigned arithmetic (\<^verbatim>\<open>timescale / 2\<close> is computed in 32 bits first). A timescale of
  0 divides by zero.
\<close>

definition ticks_to_us :: "u64 \<Rightarrow> u32 \<Rightarrow> error + u64" where
  "ticks_to_us t ts =
     (if ts = 0 then Inl UNDEFINED
      else Inr ((t * 1000000 + ucast (ts div 2)) div ucast ts))"

subsection \<open>Movie and track information\<close>

text \<open>
  Modelled from the spec: \<^verbatim>\<open>struct mp4_media_info\<close> and \<^verbatim>\<open>struct mp4_track_info\<close> are
  declared in \<^verbatim>\<open>libmp4.h\<close>, which is not among the sources; the fields are the ones the two
  functions assign. \<^verbatim>\<open>audio_sample_rate\<close> is a \<^verbatim>\<open>float\<close> in C, the quotient of the 16.16 value
  by 65536: the record keeps the 16.16 value.
\<close>

record mp4_media_info =
  mi_duration :: u64
  mi_creation_time :: u64
  mi_modification_time :: u64
  mi_track_count :: u32

record mp4_track_info =
  ti_id :: u32
  ti_type :: mp4_track_type
  ti_duration :: u64
  ti_creation_time :: u64
  ti_modification_time :: u64
  ti_sample_count :: u32
  ti_has_metadata :: bool
  ti_metadata_content_encoding :: "u8 list option"
  ti_metadata_mime_format :: "u8 list option"
  ti_video_codec :: mp4_video_codec
  ti_video_width :: u32
  ti_video_height :: u32
  ti_audio_codec :: mp4_audio_codec
  ti_audio_channel_count :: u32
  ti_audio_sample_size :: u32
  ti_audio_sample_rate_16_16 :: u32

text \<open>
  \<^verbatim>\<open>mp4_demux_get_media_info\<close>. The demuxer is an option (the pointer may be \<^verbatim>\<open>NULL\<close>), and
  \<open>out\<close> says whether \<^verbatim>\<open>media_info\<close> is a pointer to a structure. The function does not
  write to the demuxer.
\<close>

definition mp4_demux_get_media_info :: "mp4_demux option \<Rightarrow> bool \<Rightarrow> error + mp4_media_info" where
  "mp4_demux_get_media_info dp out =
     (case dp of
        None \<Rightarrow> Inl EINVAL
      | Some demux \<Rightarrow>
          if \<not> out then Inl EINVAL
          else
            (case ticks_to_us (mv_duration demux) (mv_timescale demux) of
               Inl e \<Rightarrow> Inl e
             | Inr d \<Rightarrow>
                 Inr \<lparr>mi_duration = d,
                      mi_creation_time = mv_creationTime demux - MP4_MAC_TO_UNIX_EPOCH_OFFSET,
                      mi_modification_time = mv_creationTime demux - MP4_MAC_TO_UNIX_EPOCH_OFFSET,
                      mi_track_count = trackCount demux\<rparr>))"

text \<open>The zeroed \<^verbatim>\<open>struct mp4_track_info\<close> (after \<^verbatim>\<open>memset\<close>).\<close>

definition track_info_zero :: mp4_track_info where
  "track_info_zero =
     \<lparr>ti_id = 0, ti_type = MP4_TRACK_TYPE_UNKNOWN, ti_duration = 0, ti_creation_time = 0,
      ti_modification_time = 0, ti_sample_count = 0, ti_has_metadata = False,
      ti_metadata_content_encoding = None, ti_metadata_mime_format = None,
      ti_video_codec = MP4_VIDEO_CODEC_UNKNOWN, ti_video_width = 0, ti_video_height = 0,
      ti_audio_codec = MP4_AUDIO_CODEC_UNKNOWN, ti_audio_channel_count = 0,
      ti_audio_sample_size = 0, ti_audio_sample_rate_16_16 = 0\<rparr>"

text \<open>
  The walk \<^verbatim>\<open>for (tk = demux->track, k = 0; (tk) && (k < track_idx); tk = tk->next, k++)\<close>:
  the track it stops at, if any.
\<close>

fun nth_track :: "mp4_track list \<Rightarrow> nat \<Rightarrow> mp4_track option" where
  "nth_track [] k = None"
| "nth_track (tk # tks) 0 = Some tk"
| "nth_track (tk # tks) (Suc k) = nth_track tks k"

text \<open>The fields \<^verbatim>\<open>mp4_demux_get_track_info\<close> fills for the track it found.\<close>

definition fill_track_info :: "mp4_demux \<Rightarrow> mp4_track \<Rightarrow> error + mp4_track_info" where
  "fill_track_info demux tk =
     (case ticks_to_us (duration tk) (timescale tk) of
        Inl e \<Rightarrow> Inl e
      | Inr d \<Rightarrow>
          (case (case metadata tk of
                   None \<Rightarrow> Inr None
                 | Some m \<Rightarrow>
                     if m < length (track demux) then Inr (Some (track demux ! m))
                     else Inl UNDEFINED) of
             Inl e \<Rightarrow> Inl e
           | Inr mt \<Rightarrow>
               let i0 = track_info_zero
                     \<lparr>ti_id := tk_id tk, ti_type := tk_type tk, ti_duration := d,
                      ti_creation_time := creationTime tk - MP4_MAC_TO_UNIX_EPOCH_OFFSET,
                      ti_modification_time := creationTime tk - MP4_MAC_TO_UNIX_EPOCH_OFFSET,
                      ti_sample_count := sampleCount tk,
                      ti_has_metadata := (mt \<noteq> None)\<rparr>;
                   i1 = (case mt of
                           Some metatk \<Rightarrow>
                             i0\<lparr>ti_metadata_content_encoding := metadataContentEncoding metatk,
                                ti_metadata_mime_format := metadataMimeFormat metatk\<rparr>
                         | None \<Rightarrow>
                             if tk_type tk = MP4_TRACK_TYPE_METADATA
                             then i0\<lparr>ti_metadata_content_encoding := metadataContentEncoding tk,
                                     ti_metadata_mime_format := metadataMimeFormat tk\<rparr>
                             else i0)
               in Inr (if tk_type tk = MP4_TRACK_TYPE_VIDEO
                       then i1\<lparr>ti_video_codec := videoCodec tk, ti_video_width := videoWidth tk,
                               ti_video_height := videoHeight tk\<rparr>
                       else if tk_type tk = MP4_TRACK_TYPE_AUDIO
                       then i1\<lparr>ti_audio_codec := audioCodec tk,
                               ti_audio_channel_count := audioChannelCount tk,
                               ti_audio_sample_size := audioSampleSize tk,
                               ti_audio_sample_rate_16_16 := audioSampleRate tk\<rparr>
                       else i1)))"

text \<open>
  \<^verbatim>\<open>mp4_demux_get_track_info\<close>. The result carries the demuxer as the call leaves it.
  \<^verbatim>\<open>MP4_RETURN_ERR_IF_FAILED(cond, err)\<close> returns \<open>err\<close> when \<open>cond\<close> is false.
\<close>

definition mp4_demux_get_track_info ::
  "mp4_demux option \<Rightarrow> u32 \<Rightarrow> bool \<Rightarrow> (error + mp4_track_info) \<times> mp4_demux option" where
  "mp4_demux_get_track_info dp track_idx out =
     (case dp of
        None \<Rightarrow> (Inl EINVAL, dp)
      | Some demux \<Rightarrow>
          if \<not> out then (Inl EINVAL, dp)
          else if \<not> track_idx < trackCount demux then (Inl EINVAL, dp)
          else
            (case nth_track (track demux) (unat track_idx) of
               Some tk \<Rightarrow> (fill_track_info demux tk, dp)
             | None \<Rightarrow> (Inl ENOENT, dp)))"

subsection \<open>Zeroed structures\<close>

text \<open>
  A track as the \<^verbatim>\<open>trak\<close> case of \<^verbatim>\<open>mp4_demux_parse_children\<close> creates it and a demuxer
  as \<^verbatim>\<open>mp4_demux_open\<close> creates it: \<^verbatim>\<open>memset\<close> to 0 (the file apart).
\<close>

definition track_zero :: mp4_track where
  "track_zero =
     \<lparr>tk_id = 0, tk_type = MP4_TRACK_TYPE_UNKNOWN, timescale = 0, duration = 0,
      creationTime = 0, modificationTime = 0, currentSample = 0, sampleCount = 0,
      sampleSize = None, sampleDecodingTime = None, sampleOffset = None, chunkCount = 0,
      chunkOffset = None, timeToSampleEntryCount = 0, timeToSampleEntries = None,
      sampleToChunkEntryCount = 0, sampleToChunkEntries = None, syncSampleEntryCount = 0,
      syncSampleEntries = None, referenceType = 0, referenceTrackId = 0,
      videoCodec = MP4_VIDEO_CODEC_UNKNOWN, videoWidth = 0, videoHeight = 0,
      audioCodec = MP4_AUDIO_CODEC_UNKNOWN, audioChannelCount = 0, audioSampleSize = 0,
      audioSampleRate = 0, metadataContentEncoding = None, metadataMimeFormat = None,
      ref = None, metadata = None, chapters = None\<rparr>"

definition demux_zero :: "u8 list \<Rightarrow> mp4_demux" where
  "demux_zero bytes =
     \<lparr>file_bytes = bytes, fpos = 0, fileSize = int (length bytes), track = [], trackCount = 0,
      mv_timescale = 0, mv_duration = 0, mv_creationTime = 0, mv_modificationTime = 0,
      chaptersName = replicate MP4_CHAPTERS_MAX None,
      chaptersTime = replicate MP4_CHAPTERS_MAX 0, chaptersCount = 0,
      finalMetadataCount = 0, finalMetadataKey = None, finalMetadataValue = None,
      udtaLocationKey = None, udtaLocationValue = None,
      finalCoverOffset = 0, finalCoverSize = 0, finalCoverType = MP4_METADATA_COVER_TYPE_UNKNOWN,
      udtaCoverOffset = 0, udtaCoverSize = 0, udtaCoverType = MP4_METADATA_COVER_TYPE_UNKNOWN,
      metaCoverOffset = 0, metaCoverSize = 0, metaCoverType = MP4_METADATA_COVER_TYPE_UNKNOWN,
      udtaMetadataCount = 0, udtaMetadataKey = None, udtaMetadataValue = None,
      metaMetadataCount = 0, metaMetadataKey = None, metaMetadataValue = None\<rparr>"

subsection \<open>Arrays\<close>

text \<open>
  \<open>array_get a i\<close> is \<^verbatim>\<open>a[i]\<close>: undefined through a null pointer and outside the
  allocation. \<open>array_take n a\<close> is what a loop \<^verbatim>\<open>for (i = 0; i < n; i++)\<close> reads of \<open>a\<close>.
\<close>

definition array_get :: "'a list option \<Rightarrow> nat \<Rightarrow> error + 'a" where
  "array_get a i =
     (case a of
        None \<Rightarrow> Inl UNDEFINED
      | Some xs \<Rightarrow> if i < length xs then Inr (xs ! i) else Inl UNDEFINED)"

definition array_take :: "nat \<Rightarrow> 'a list option \<Rightarrow> error + 'a list" where
  "array_take n a =
     (if n = 0 then Inr []
      else (case a of
              None \<Rightarrow> Inl UNDEFINED
            | Some xs \<Rightarrow> if n \<le> length xs then Inr (take n xs) else Inl UNDEFINED))"

subsection \<open>Reading samples\<close>




text \<open>The first track of the list with the given id, as the lookup loops find it.\<close>

fun find_track :: "mp4_track list \<Rightarrow> u32 \<Rightarrow> nat \<Rightarrow> nat option" where
  "find_track [] tid k = None"
| "find_track (tk # tks) tid k = (if tk_id tk = tid then Some k else find_track tks tid (Suc k))"






subsection \<open>Building the sample index of a track\<close>

text \<open>
  The first loop of \<^verbatim>\<open>mp4_demux_build_tracks\<close> over the \<^verbatim>\<open>stsc\<close> entries: the number of
  samples they stand for, in 32-bit unsigned arithmetic.
\<close>

fun stsc_count_loop ::
  "mp4_sample_to_chunk_entry list \<Rightarrow> u32 \<Rightarrow> u32 \<Rightarrow> u32 \<Rightarrow> u32 \<times> u32 \<times> u32" where
  "stsc_count_loop [] lastFirstChunk lastSamplesPerChunk n =
     (lastFirstChunk, lastSamplesPerChunk, n)"
| "stsc_count_loop (e # es) lastFirstChunk lastSamplesPerChunk n =
     stsc_count_loop es (firstChunk e) (samplesPerChunk e)
       (n + (firstChunk e - lastFirstChunk) * lastSamplesPerChunk)"

definition stsc_sample_count :: "mp4_track \<Rightarrow> error + u32" where
  "stsc_sample_count tk =
     (case array_take (unat (sampleToChunkEntryCount tk)) (sampleToChunkEntries tk) of
        Inl e \<Rightarrow> Inl e
      | Inr es \<Rightarrow>
          (case stsc_count_loop es 1 0 0 of
             (lastFirstChunk, lastSamplesPerChunk, n) \<Rightarrow>
               Inr (n + (chunkCount tk - lastFirstChunk + 1) * lastSamplesPerChunk)))"

text \<open>
  The innermost loop
  \<^verbatim>\<open>for (k = 0, offsetInChunk = 0; k < lastSamplesPerChunk; k++, n++)\<close>,
  with \<open>k\<close> iterations left: it stores the offset of sample \<open>n\<close> and adds its size to
  \<open>offsetInChunk\<close>. \<open>co\<close> and \<open>ss\<close> are \<^verbatim>\<open>tk->chunkOffset\<close> and \<^verbatim>\<open>tk->sampleSize\<close>, and
  \<open>so\<close> is the array \<^verbatim>\<open>tk->sampleOffset\<close>.
\<close>

fun fill_samples ::
  "u64 list option \<Rightarrow> u32 list option \<Rightarrow> nat \<Rightarrow> u32 \<Rightarrow> u64 \<Rightarrow> u32 \<Rightarrow> u64 list
     \<Rightarrow> error + u32 \<times> u64 list" where
  "fill_samples co ss 0 chunkIdx offsetInChunk n so = Inr (n, so)"
| "fill_samples co ss (Suc k) chunkIdx offsetInChunk n so =
     (case array_get co (unat chunkIdx) of
        Inl e \<Rightarrow> Inl e
      | Inr c \<Rightarrow>
          if \<not> unat n < length so then Inl UNDEFINED
          else
            (case array_get ss (unat n) of
               Inl e \<Rightarrow> Inl e
             | Inr sz \<Rightarrow>
                 fill_samples co ss k chunkIdx (offsetInChunk + ucast sz) (n + 1)
                   (so[unat n := c + offsetInChunk])))"

text \<open>The loop \<^verbatim>\<open>for (j = 0; j < chunkCount; j++, chunkIdx++)\<close>, with \<open>j\<close> iterations left.\<close>

fun fill_chunks ::
  "u64 list option \<Rightarrow> u32 list option \<Rightarrow> nat \<Rightarrow> u32 \<Rightarrow> u32 \<Rightarrow> u32 \<Rightarrow> u64 list
     \<Rightarrow> error + u32 \<times> u32 \<times> u64 list" where
  "fill_chunks co ss 0 lastSamplesPerChunk chunkIdx n so = Inr (chunkIdx, n, so)"
| "fill_chunks co ss (Suc j) lastSamplesPerChunk chunkIdx n so =
     (case fill_samples co ss (unat lastSamplesPerChunk) chunkIdx 0 n so of
        Inl e \<Rightarrow> Inl e
      | Inr (n', so') \<Rightarrow> fill_chunks co ss j lastSamplesPerChunk (chunkIdx + 1) n' so')"

text \<open>The loop over the \<^verbatim>\<open>stsc\<close> entries that fills the offsets.\<close>

fun fill_entries ::
  "u64 list option \<Rightarrow> u32 list option \<Rightarrow> mp4_sample_to_chunk_entry list
     \<Rightarrow> u32 \<Rightarrow> u32 \<Rightarrow> u32 \<Rightarrow> u32 \<Rightarrow> u64 list
     \<Rightarrow> error + u32 \<times> u32 \<times> u32 \<times> u32 \<times> u64 list" where
  "fill_entries co ss [] lastFirstChunk lastSamplesPerChunk chunkIdx n so =
     Inr (lastFirstChunk, lastSamplesPerChunk, chunkIdx, n, so)"
| "fill_entries co ss (e # es) lastFirstChunk lastSamplesPerChunk chunkIdx n so =
     (case fill_chunks co ss (unat (firstChunk e - lastFirstChunk)) lastSamplesPerChunk
             chunkIdx n so of
        Inl err \<Rightarrow> Inl err
      | Inr (chunkIdx', n', so') \<Rightarrow>
          fill_entries co ss es (firstChunk e) (samplesPerChunk e) chunkIdx' n' so')"

text \<open>
  Lines 2574 to 2603: the offsets of all samples, written into the array \<open>so\<close> as
  \<^verbatim>\<open>malloc\<close> returned it.
\<close>

definition fill_sample_offsets :: "mp4_track \<Rightarrow> u64 list \<Rightarrow> error + u64 list" where
  "fill_sample_offsets tk so =
     (case array_take (unat (sampleToChunkEntryCount tk)) (sampleToChunkEntries tk) of
        Inl e \<Rightarrow> Inl e
      | Inr es \<Rightarrow>
          (case fill_entries (chunkOffset tk) (sampleSize tk) es 1 0 0 0 so of
             Inl e \<Rightarrow> Inl e
           | Inr (lastFirstChunk, lastSamplesPerChunk, chunkIdx, n, so1) \<Rightarrow>
               (case fill_chunks (chunkOffset tk) (sampleSize tk)
                       (unat (chunkCount tk - lastFirstChunk + 1))
                       lastSamplesPerChunk chunkIdx n so1 of
                  Inl e \<Rightarrow> Inl e
                | Inr (chunkIdx', n', so2) \<Rightarrow> Inr so2)))"

text \<open>The sum of the \<^verbatim>\<open>stts\<close> sample counts, in 32-bit unsigned arithmetic.\<close>

fun stts_sample_count :: "mp4_time_to_sample_entry list \<Rightarrow> u32 \<Rightarrow> u32" where
  "stts_sample_count [] n = n"
| "stts_sample_count (e # es) n = stts_sample_count es (n + tts_sampleCount e)"

text \<open>
  The decoding times: the inner loop over the samples of one \<^verbatim>\<open>stts\<close> entry, with \<open>j\<close>
  iterations left, and the loop over the entries. \<open>sdt\<close> is \<^verbatim>\<open>tk->sampleDecodingTime\<close>.
\<close>

fun fill_times_entry ::
  "nat \<Rightarrow> u32 \<Rightarrow> u64 \<Rightarrow> u32 \<Rightarrow> u64 list \<Rightarrow> error + u64 \<times> u32 \<times> u64 list" where
  "fill_times_entry 0 delta ts k sdt = Inr (ts, k, sdt)"
| "fill_times_entry (Suc j) delta ts k sdt =
     (if \<not> unat k < length sdt then Inl UNDEFINED
      else fill_times_entry j delta (ts + ucast delta) (k + 1) (sdt[unat k := ts]))"

fun fill_times ::
  "mp4_time_to_sample_entry list \<Rightarrow> u64 \<Rightarrow> u32 \<Rightarrow> u64 list \<Rightarrow> error + u64 list" where
  "fill_times [] ts k sdt = Inr sdt"
| "fill_times (e # es) ts k sdt =
     (case fill_times_entry (unat (tts_sampleCount e)) (sampleDelta e) ts k sdt of
        Inl err \<Rightarrow> Inl err
      | Inr (ts', k', sdt') \<Rightarrow> fill_times es ts' k' sdt')"

text \<open>
  Lines 2550 to 2626, the part of the loop body of \<^verbatim>\<open>mp4_demux_build_tracks\<close> that builds
  the two arrays of one track, \<^verbatim>\<open>sampleOffset\<close> and \<^verbatim>\<open>sampleDecodingTime\<close>. They come from
  \<^verbatim>\<open>malloc\<close> with indeterminate content; the model starts them at 0.
\<close>

definition sample_index_of :: "allocator \<Rightarrow> mp4_track \<Rightarrow> error + u64 list \<times> u64 list" where
  "sample_index_of alloc tk =
     (case stsc_sample_count tk of
        Inl e \<Rightarrow> Inl e
      | Inr n \<Rightarrow>
          if n \<noteq> sampleCount tk then Inl EPROTO
          else if \<not> alloc (unat n * 8) then Inl ENOMEM
          else
            (case fill_sample_offsets tk (replicate (unat n) 0) of
               Inl e \<Rightarrow> Inl e
             | Inr so \<Rightarrow>
                 (case array_take (unat (timeToSampleEntryCount tk)) (timeToSampleEntries tk) of
                    Inl e \<Rightarrow> Inl e
                  | Inr tts \<Rightarrow>
                      if stts_sample_count tts 0 \<noteq> sampleCount tk then Inl EPROTO
                      else if \<not> alloc (unat (stts_sample_count tts 0) * 8) then Inl ENOMEM
                      else
                        (case fill_times tts 0 0
                                (replicate (unat (stts_sample_count tts 0)) 0) of
                           Inl e \<Rightarrow> Inl e
                         | Inr sdt \<Rightarrow> Inr (so, sdt)))))"

definition build_sample_tables :: "allocator \<Rightarrow> mp4_track \<Rightarrow> error + mp4_track" where
  "build_sample_tables alloc tk =
     (case sample_index_of alloc tk of
        Inl e \<Rightarrow> Inl e
      | Inr (so, sdt) \<Rightarrow> Inr (tk\<lparr>sampleOffset := Some so, sampleDecodingTime := Some sdt\<rparr>))"

subsection \<open>Linking the tracks\<close>

text \<open>
  The local variables of \<^verbatim>\<open>mp4_demux_build_tracks\<close>. The counters are C \<^verbatim>\<open>int\<close>s that count
  tracks.
\<close>

record build_locals =
  videoTrackCount :: int
  audioTrackCount :: int
  hintTrackCount :: int
  metadataTrackCount :: int
  textTrackCount :: int
  videoTk :: "nat option"
  metaTk :: "nat option"
  chapTk :: "nat option"

definition build_locals_init :: build_locals where
  "build_locals_init =
     \<lparr>videoTrackCount = 0, audioTrackCount = 0, hintTrackCount = 0, metadataTrackCount = 0,
      textTrackCount = 0, videoTk = None, metaTk = None, chapTk = None\<rparr>"

text \<open>The \<^verbatim>\<open>switch (tk->type)\<close> for the track at position \<open>t\<close>.\<close>

definition count_track :: "mp4_track_type \<Rightarrow> nat \<Rightarrow> build_locals \<Rightarrow> build_locals" where
  "count_track ty t l =
     (case ty of
        MP4_TRACK_TYPE_VIDEO \<Rightarrow> l\<lparr>videoTrackCount := videoTrackCount l + 1, videoTk := Some t\<rparr>
      | MP4_TRACK_TYPE_AUDIO \<Rightarrow> l\<lparr>audioTrackCount := audioTrackCount l + 1\<rparr>
      | MP4_TRACK_TYPE_HINT \<Rightarrow> l\<lparr>hintTrackCount := hintTrackCount l + 1\<rparr>
      | MP4_TRACK_TYPE_METADATA \<Rightarrow>
          l\<lparr>metadataTrackCount := metadataTrackCount l + 1, metaTk := Some t\<rparr>
      | MP4_TRACK_TYPE_TEXT \<Rightarrow> l\<lparr>textTrackCount := textTrackCount l + 1\<rparr>
      | _ \<Rightarrow> l)"

text \<open>
  The track reference of the track at position \<open>t\<close>: the tracks after the assignments, and
  \<^verbatim>\<open>chapTk\<close>.
\<close>

definition link_track ::
  "nat \<Rightarrow> mp4_track list \<Rightarrow> nat option \<Rightarrow> mp4_track list \<times> nat option" where
  "link_track t tks chap =
     (if referenceType (tks ! t) \<noteq> 0 \<and> referenceTrackId (tks ! t) \<noteq> 0 then
        (case find_track tks (referenceTrackId (tks ! t)) 0 of
           None \<Rightarrow> (tks, chap)
         | Some r \<Rightarrow>
             if referenceType (tks ! t) = MP4_REFERENCE_TYPE_DESCRIPTION
                \<and> tk_type (tks ! t) = MP4_TRACK_TYPE_METADATA then
               (let tks1 = tks[r := (tks ! r)\<lparr>metadata := Some t\<rparr>];
                    tks2 = tks1[t := (tks1 ! t)\<lparr>ref := Some r\<rparr>]
                in (tks2, chap))
             else if referenceType (tks ! t) = MP4_REFERENCE_TYPE_CHAPTERS
                \<and> tk_type (tks ! r) = MP4_TRACK_TYPE_TEXT then
               (let tks1 = tks[t := (tks ! t)\<lparr>chapters := Some r\<rparr>];
                    tks2 = tks1[r := (tks1 ! r)\<lparr>ref := Some t,
                                                 tk_type := MP4_TRACK_TYPE_CHAPTERS\<rparr>]
                in (tks2, Some r))
             else (tks, chap))
      else (tks, chap))"

text \<open>
  The loop \<^verbatim>\<open>for (tk = demux->track; tk; tk = tk->next)\<close>, at the track of position \<open>t\<close>
  with \<open>n\<close> tracks left.
\<close>

fun build_tracks_loop ::
  "allocator \<Rightarrow> nat \<Rightarrow> nat \<Rightarrow> build_locals \<Rightarrow> mp4_track list
     \<Rightarrow> error + build_locals \<times> mp4_track list" where
  "build_tracks_loop alloc 0 t l tks = Inr (l, tks)"
| "build_tracks_loop alloc (Suc n) t l tks =
     (case build_sample_tables alloc (tks ! t) of
        Inl e \<Rightarrow> Inl e
      | Inr tk' \<Rightarrow>
          (let tks1 = tks[t := tk'];
               l1 = count_track (tk_type tk') t l
           in case link_track t tks1 (chapTk l1) of
                (tks2, chap) \<Rightarrow> build_tracks_loop alloc n (Suc t) (l1\<lparr>chapTk := chap\<rparr>) tks2))"

text \<open>The workaround that links one video track and one metadata track.\<close>

definition link_video_metadata :: "build_locals \<Rightarrow> mp4_track list \<Rightarrow> mp4_track list" where
  "link_video_metadata l tks =
     (case (videoTk l, metaTk l) of
        (Some v, Some m) \<Rightarrow>
          if videoTrackCount l = 1 \<and> metadataTrackCount l = 1 \<and> audioTrackCount l = 0
             \<and> hintTrackCount l = 0 \<and> metadata (tks ! v) = None then
            (let tks1 = tks[v := (tks ! v)\<lparr>metadata := Some m\<rparr>]
             in tks1[m := (tks1 ! m)\<lparr>ref := Some v\<rparr>])
          else tks
      | _ \<Rightarrow> tks)"

subsection \<open>The chapter list\<close>

text \<open>
  The loop over the samples of the chapter track, at sample \<open>i\<close> with \<open>n\<close> samples left.
  \<^verbatim>\<open>chaptersName\<close> and \<^verbatim>\<open>chaptersTime\<close> are arrays of \<^verbatim>\<open>MP4_CHAPTERS_MAX\<close> elements, and
  the code stores at index \<^verbatim>\<open>chaptersCount\<close> without comparing it with their size.
\<close>

fun build_chapters_loop ::
  "allocator \<Rightarrow> mp4_track \<Rightarrow> nat \<Rightarrow> nat \<Rightarrow> mp4_demux \<Rightarrow> error + mp4_demux" where
  "build_chapters_loop alloc chap 0 i demux = Inr demux"
| "build_chapters_loop alloc chap (Suc n) i demux =
     (case array_get (sampleSize chap) i of
        Inl e \<Rightarrow> Inl e
      | Inr ssize \<Rightarrow>
     (case array_get (sampleOffset chap) i of
        Inl e \<Rightarrow> Inl e
      | Inr off \<Rightarrow>
     (case fseeko_set demux (sint off) of
        Inl e \<Rightarrow> Inl e
      | Inr d1 \<Rightarrow>
     (case fread_item d1 2 of
        (None, d2) \<Rightarrow> Inl EIO
      | (Some bs, d2) \<Rightarrow>
          if ucast (be16 bs) \<le> ssize - 2 then
            if \<not> alloc (unat (be16 bs) + 1) then Inl ENOMEM
            else if \<not> unat (chaptersCount d2) < length (chaptersName d2) then Inl UNDEFINED
            else
              (case fread_item d2 (unat (be16 bs)) of
                 (None, d3) \<Rightarrow> Inl EIO
               | (Some name, d3) \<Rightarrow>
              (case array_get (sampleDecodingTime chap) i of
                 Inl e \<Rightarrow> Inl e
               | Inr t \<Rightarrow>
              (case ticks_to_us t (timescale chap) of
                 Inl e \<Rightarrow> Inl e
               | Inr chapTime \<Rightarrow>
                   if \<not> unat (chaptersCount d3) < length (chaptersTime d3) then Inl UNDEFINED
                   else
                     build_chapters_loop alloc chap n (Suc i)
                       (d3\<lparr>chaptersName :=
                             (chaptersName d3)[unat (chaptersCount d3) := Some name],
                           chaptersTime :=
                             (chaptersTime d3)[unat (chaptersCount d3) := chapTime],
                           chaptersCount := chaptersCount d3 + 1\<rparr>))))
          else build_chapters_loop alloc chap n (Suc i) d2))))"

text \<open>\<^verbatim>\<open>mp4_demux_build_tracks\<close>.\<close>

definition mp4_demux_build_tracks :: "allocator \<Rightarrow> mp4_demux \<Rightarrow> error + mp4_demux" where
  "mp4_demux_build_tracks alloc demux =
     (case build_tracks_loop alloc (length (track demux)) 0 build_locals_init (track demux) of
        Inl e \<Rightarrow> Inl e
      | Inr (l, tks) \<Rightarrow>
          (let d1 = demux\<lparr>track := link_video_metadata l tks\<rparr>
           in case chapTk l of
                None \<Rightarrow> Inr d1
              | Some c \<Rightarrow>
                  build_chapters_loop alloc (track d1 ! c)
                    (unat (sampleCount (track d1 ! c))) 0 d1))"

subsection \<open>The final metadata and the cover\<close>

text \<open>\<^verbatim>\<open>strlen\<close> of the string held in a buffer: the bytes before the first zero byte.\<close>

definition strlen :: "u8 list \<Rightarrow> nat" where
  "strlen s = length (takeWhile (\<lambda>b. b \<noteq> 0) s)"

text \<open>
  One of the loops of \<^verbatim>\<open>mp4_demux_build_metadata\<close> over a pair of arrays, at index \<open>i\<close>
  with \<open>n\<close> iterations left: the entries whose value and key are both non-null and
  non-empty, in order. The key is read only when the value passed the test.
\<close>

fun metadata_entries ::
  "nat \<Rightarrow> nat \<Rightarrow> u8 list option list option \<Rightarrow> u8 list option list option
     \<Rightarrow> error + (u8 list \<times> u8 list) list" where
  "metadata_entries 0 i keys vals = Inr []"
| "metadata_entries (Suc n) i keys vals =
     (case array_get vals i of
        Inl e \<Rightarrow> Inl e
      | Inr None \<Rightarrow> metadata_entries n (Suc i) keys vals
      | Inr (Some v) \<Rightarrow>
          if 0 < strlen v then
            (case array_get keys i of
               Inl e \<Rightarrow> Inl e
             | Inr None \<Rightarrow> metadata_entries n (Suc i) keys vals
             | Inr (Some k) \<Rightarrow>
                 if 0 < strlen k then
                   (case metadata_entries n (Suc i) keys vals of
                      Inl e \<Rightarrow> Inl e
                    | Inr es \<Rightarrow> Inr ((k, v) # es))
                 else metadata_entries n (Suc i) keys vals)
          else metadata_entries n (Suc i) keys vals)"

text \<open>The location entry, under the same test.\<close>

definition location_entry :: "mp4_demux \<Rightarrow> (u8 list \<times> u8 list) list" where
  "location_entry demux =
     (case (udtaLocationValue demux, udtaLocationKey demux) of
        (Some v, Some k) \<Rightarrow> if 0 < strlen v \<and> 0 < strlen k then [(k, v)] else []
      | _ \<Rightarrow> [])"

text \<open>Lines 2807 to 2815: the choice of the cover.\<close>

definition select_cover :: "mp4_demux \<Rightarrow> mp4_demux" where
  "select_cover demux =
     (if 0 < metaCoverSize demux then
        demux\<lparr>finalCoverSize := metaCoverSize demux,
              finalCoverOffset := metaCoverOffset demux,
              finalCoverType := metaCoverType demux\<rparr>
      else if 0 < udtaCoverSize demux then
        demux\<lparr>finalCoverSize := udtaCoverSize demux,
              finalCoverOffset := udtaCoverOffset demux,
              finalCoverType := udtaCoverType demux\<rparr>
      else demux)"

text \<open>
  \<^verbatim>\<open>mp4_demux_build_metadata\<close>. The three counters are \<^verbatim>\<open>unsigned int\<close>; the two final
  arrays come from \<^verbatim>\<open>calloc\<close> with \<^verbatim>\<open>finalMetadataCount\<close> elements, and storing more
  entries than that writes outside them.
\<close>

definition mp4_demux_build_metadata :: "allocator \<Rightarrow> mp4_demux \<Rightarrow> error + mp4_demux" where
  "mp4_demux_build_metadata alloc demux =
     (case metadata_entries (unat (metaMetadataCount demux)) 0
             (metaMetadataKey demux) (metaMetadataValue demux) of
        Inl e \<Rightarrow> Inl e
      | Inr metas \<Rightarrow>
          (case metadata_entries (unat (udtaMetadataCount demux)) 0
                  (udtaMetadataKey demux) (udtaMetadataValue demux) of
             Inl e \<Rightarrow> Inl e
           | Inr udtas \<Rightarrow>
               (let entries = metas @ udtas @ location_entry demux;
                    count = (of_nat (length metas) + of_nat (length udtas)
                             + of_nat (length (location_entry demux)) :: u32)
                in if \<not> alloc (unat count * 8) then Inl ENOMEM
                   else if unat count < length entries then Inl UNDEFINED
                   else
                     Inr (select_cover
                            (demux\<lparr>finalMetadataCount := count,
                                   finalMetadataKey := Some (map (Some \<circ> fst) entries),
                                   finalMetadataValue := Some (map (Some \<circ> snd) entries)\<rparr>)))))"

text \<open>
  What a call of \<^verbatim>\<open>mp4_demux_get_metadata_cover\<close> that returns 0 hands back: the values
  stored through \<^verbatim>\<open>cover_size\<close> and \<^verbatim>\<open>cover_type\<close> and the bytes copied into the buffer
  (\<open>None\<close>: nothing was stored).
\<close>

record cover_out =
  cover_size :: "u32 option"
  cover_type :: "mp4_metadata_cover_type option"
  cover_bytes :: "u8 list option"

text \<open>
  \<^verbatim>\<open>mp4_demux_get_metadata_cover\<close>. \<open>cover_buffer\<close>, \<open>size_out\<close> and \<open>type_out\<close> say whether
  the three pointers are non-null. Without a final cover the code stores 0 through
  \<^verbatim>\<open>cover_size\<close> unchecked.
\<close>

definition mp4_demux_get_metadata_cover ::
  "mp4_demux option \<Rightarrow> bool \<Rightarrow> u32 \<Rightarrow> bool \<Rightarrow> bool \<Rightarrow> (error + cover_out) \<times> mp4_demux option" where
  "mp4_demux_get_metadata_cover dp cover_buffer cover_buffer_size size_out type_out =
     (case dp of
        None \<Rightarrow> (Inl EINVAL, dp)
      | Some demux \<Rightarrow>
          if 0 < finalCoverSize demux then
            (let out = \<lparr>cover_size = (if size_out then Some (finalCoverSize demux) else None),
                        cover_type = (if type_out then Some (finalCoverType demux) else None),
                        cover_bytes = None\<rparr>
             in if cover_buffer \<and> finalCoverSize demux \<le> cover_buffer_size then
                  (case fseeko_set demux (finalCoverOffset demux) of
                     Inl e \<Rightarrow> (Inl e, dp)
                   | Inr d1 \<Rightarrow>
                       (case fread_item d1 (unat (finalCoverSize demux)) of
                          (None, d2) \<Rightarrow> (Inl EIO, Some d2)
                        | (Some bs, d2) \<Rightarrow> (Inr (out\<lparr>cover_bytes := Some bs\<rparr>), Some d2)))
                else if cover_buffer then (Inl ENOBUFS, dp)
                else (Inr out, dp))
          else if size_out then
            (Inr \<lparr>cover_size = Some 0, cover_type = None, cover_bytes = None\<rparr>, dp)
          else (Inl UNDEFINED, dp))"

subsection \<open>The handlers of the sample table boxes\<close>
























subsection \<open>Opening\<close>

text \<open>
  \<^verbatim>\<open>mp4_demux_open\<close> from the return of \<^verbatim>\<open>mp4_demux_parse_children\<close> on: \<open>walk\<close> is what
  the walk of the boxes gave, an error or the demuxer it filled. Whatever step fails, the
  function sets \<^verbatim>\<open>err = -EIO\<close>, closes the demuxer and returns \<^verbatim>\<open>NULL\<close>. (An undefined
  execution stays undefined.)
\<close>

definition open_error :: "error \<Rightarrow> error" where
  "open_error e = (if e = UNDEFINED then UNDEFINED else EIO)"

definition mp4_demux_open :: "allocator \<Rightarrow> error + mp4_demux \<Rightarrow> error + mp4_demux" where
  "mp4_demux_open alloc walk =
     (case walk of
        Inl e \<Rightarrow> Inl (open_error e)
      | Inr demux \<Rightarrow>
          (case mp4_demux_build_tracks alloc demux of
             Inl e \<Rightarrow> Inl (open_error e)
           | Inr d1 \<Rightarrow>
               (case mp4_demux_build_metadata alloc d1 of
                  Inl e \<Rightarrow> Inl (open_error e)
                | Inr d2 \<Rightarrow> Inr d2)))"

subsection \<open>Concrete inputs\<close>




text \<open>
  A demuxer in which a cover of 7 bytes was recorded from \<^verbatim>\<open>udta\<close> (JPEG, at offset 10) and
  one of \<open>meta_size\<close> bytes from \<^verbatim>\<open>meta\<close> (PNG, at offset 40).
\<close>

definition two_cover_demux :: "u32 \<Rightarrow> mp4_demux" where
  "two_cover_demux meta_size =
     (demux_zero (replicate 64 7))
       \<lparr>udtaCoverOffset := 10, udtaCoverSize := 7, udtaCoverType := MP4_METADATA_COVER_TYPE_JPEG,
        metaCoverOffset := 40, metaCoverSize := meta_size,
        metaCoverType := MP4_METADATA_COVER_TYPE_PNG\<rparr>"

text \<open>
  A file that begins with the bytes 00 01 41 (a chapter sample: a name of one byte, "A"),
  and a demuxer on it with a video track that refers to a text track as its chapters. The
  text track has \<open>n\<close> samples of 3 bytes, one per chunk, and every chunk is at offset 0.
\<close>

definition chapter_file :: "u8 list" where
  "chapter_file = [0, 1, 65] @ replicate 4093 0"

definition chapters_demux :: "u32 \<Rightarrow> mp4_demux" where
  "chapters_demux n =
     (demux_zero chapter_file)
       \<lparr>track :=
          [track_zero\<lparr>tk_id := 1, tk_type := MP4_TRACK_TYPE_VIDEO, timescale := 1000,
                      referenceType := MP4_REFERENCE_TYPE_CHAPTERS, referenceTrackId := 2\<rparr>,
           track_zero\<lparr>tk_id := 2, tk_type := MP4_TRACK_TYPE_TEXT, timescale := 1,
                      sampleCount := n, sampleSize := Some (replicate (unat n) 3),
                      chunkCount := n, chunkOffset := Some (replicate (unat n) 0),
                      sampleToChunkEntryCount := 1,
                      sampleToChunkEntries :=
                        Some [\<lparr>firstChunk = 1, samplesPerChunk = 1,
                               sampleDescriptionIndex = 1\<rparr>],
                      timeToSampleEntryCount := 1,
                      timeToSampleEntries := Some [\<lparr>tts_sampleCount = n, sampleDelta = 1\<rparr>]\<rparr>],
        trackCount := 2\<rparr>"

subsection \<open>The sample offsets as the specification states them\<close>

text \<open>
  The entries of the \<^verbatim>\<open>stsc\<close> table of a track: the first \<^verbatim>\<open>sampleToChunkEntryCount\<close>
  elements of the array.
\<close>

definition stsc_entries :: "mp4_track \<Rightarrow> mp4_sample_to_chunk_entry list" where
  "stsc_entries tk =
     (case sampleToChunkEntries tk of
        None \<Rightarrow> []
      | Some es \<Rightarrow> take (unat (sampleToChunkEntryCount tk)) es)"

text \<open>
  The expansion of the run-length entries, following the words of the specification: each
  entry covers the chunks from its \<^verbatim>\<open>first_chunk\<close> up to the next entry's \<^verbatim>\<open>first_chunk\<close>
  (excluded), the last entry the chunks through the total chunk count, and every chunk
  covered by an entry holds \<^verbatim>\<open>samples_per_chunk\<close> samples. The result lists, sample by
  sample, the number of the chunk that holds the sample; chunk numbers start at 1.
\<close>

fun expand_stsc :: "mp4_sample_to_chunk_entry list \<Rightarrow> nat \<Rightarrow> nat list" where
  "expand_stsc [] cc = []"
| "expand_stsc [e] cc =
     concat (map (replicate (unat (samplesPerChunk e))) [unat (firstChunk e) ..< Suc cc])"
| "expand_stsc (e # e' # es) cc =
     concat (map (replicate (unat (samplesPerChunk e)))
               [unat (firstChunk e) ..< unat (firstChunk e')])
     @ expand_stsc (e' # es) cc"

text \<open>
  The offset of sample \<open>i\<close> as the specification states it: the offset of the chunk that
  holds the sample, plus the sizes of the samples before \<open>i\<close> that the same chunk holds.
  \<open>co\<close> are the chunk offsets, \<open>ss\<close> the sample sizes, \<open>chunks\<close> the chunk of each sample;
  the sum is a 64-bit unsigned value, as the offsets are.
\<close>

definition spec_sample_offset :: "u64 list \<Rightarrow> u32 list \<Rightarrow> nat list \<Rightarrow> nat \<Rightarrow> u64" where
  "spec_sample_offset co ss chunks i =
     co ! (chunks ! i - 1)
     + sum_list (map (\<lambda>j. ucast (ss ! j)) (filter (\<lambda>j. chunks ! j = chunks ! i) [0..<i]))"

text \<open>
  The order the format asks of the \<^verbatim>\<open>stsc\<close> entries: \<^verbatim>\<open>first_chunk\<close> does not decrease
  from an entry to the next, and is at least 1.
\<close>

definition stsc_ascending :: "mp4_sample_to_chunk_entry list \<Rightarrow> bool" where
  "stsc_ascending es =
     (sorted (map (\<lambda>e. unat (firstChunk e)) es) \<and> list_all (\<lambda>e. 1 \<le> firstChunk e) es)"

text \<open>
  The chunk offset array has \<^verbatim>\<open>chunkCount\<close> elements, as \<^verbatim>\<open>mp4_demux_parse_stco\<close> and
  \<^verbatim>\<open>mp4_demux_parse_co64\<close> allocate and fill it.
\<close>

definition chunk_table_ok :: "mp4_track \<Rightarrow> bool" where
  "chunk_table_ok tk =
     (case chunkOffset tk of
        None \<Rightarrow> True
      | Some co \<Rightarrow> length co = unat (chunkCount tk))"

text \<open>
  Two auxiliary functions of the proofs: the offsets of the samples of one chunk, from the
  offset of the chunk and the sizes of its samples, and the expansion of all entries but
  the last.
\<close>

fun run_offsets :: "u64 \<Rightarrow> u64 list \<Rightarrow> u64 list" where
  "run_offsets base [] = []"
| "run_offsets base (s # sizes) = base # run_offsets (base + s) sizes"

fun expand_closed :: "mp4_sample_to_chunk_entry list \<Rightarrow> nat list" where
  "expand_closed (e # e' # es) =
     concat (map (replicate (unat (samplesPerChunk e)))
               [unat (firstChunk e) ..< unat (firstChunk e')])
     @ expand_closed (e' # es)"
| "expand_closed es = []"

text \<open>
  The fields of a track that the box handlers fill and that the building of the sample index
  reads.
\<close>

definition sample_tables ::
  "mp4_track \<Rightarrow> (u32 \<times> u32 list option) \<times> (u32 \<times> u64 list option)
     \<times> (u32 \<times> mp4_sample_to_chunk_entry list option)
     \<times> (u32 \<times> mp4_time_to_sample_entry list option)" where
  "sample_tables tk =
     ((sampleCount tk, sampleSize tk), (chunkCount tk, chunkOffset tk),
      (sampleToChunkEntryCount tk, sampleToChunkEntries tk),
      (timeToSampleEntryCount tk, timeToSampleEntries tk))"

text \<open>
  The end of chunk \<open>ch\<close> of a track in the file: the offset of the chunk plus the sizes of
  the samples that the expansion of the \<^verbatim>\<open>stsc\<close> entries puts into it.
\<close>

definition chunk_end :: "mp4_track \<Rightarrow> nat \<Rightarrow> int" where
  "chunk_end tk ch =
     (case (chunkOffset tk, sampleSize tk) of
        (Some co, Some ss) \<Rightarrow>
          (let chunks = expand_stsc (stsc_entries tk) (unat (chunkCount tk))
           in uint (co ! (ch - 1))
              + sum_list (map (\<lambda>j. uint (ss ! j))
                            (filter (\<lambda>j. chunks ! j = ch) [0..<length chunks])))
      | _ \<Rightarrow> 0)"

text \<open>
  The sample tables of a track together with the two arrays that the building of the sample
  index adds.
\<close>

definition index_fields ::
  "mp4_track \<Rightarrow> ((u32 \<times> u32 list option) \<times> (u32 \<times> u64 list option)
     \<times> (u32 \<times> mp4_sample_to_chunk_entry list option)
     \<times> (u32 \<times> mp4_time_to_sample_entry list option)) \<times> u64 list option \<times> u64 list option" where
  "index_fields tk = (sample_tables tk, sampleOffset tk, sampleDecodingTime tk)"

subsection \<open>The sample count checks\<close>

text \<open>
  The two comparisons of \<^verbatim>\<open>mp4_demux_build_tracks\<close> that return \<^verbatim>\<open>-EPROTO\<close>: the number of samples
  that the \<^verbatim>\<open>stsc\<close> entries stand for against \<^verbatim>\<open>sampleCount\<close> (line 2565), and the sum of the
  \<^verbatim>\<open>stts\<close> sample counts against \<^verbatim>\<open>sampleCount\<close> (line 2609), both in 32-bit unsigned
  arithmetic. Between the two the code allocates and fills the offsets; \<open>offsets_filled\<close> says
  that it gets through that. \<open>index_built\<close> says that the loop body passes a track without
  an error.
\<close>

definition stsc_mismatch :: "mp4_track \<Rightarrow> bool" where
  "stsc_mismatch tk =
     (case stsc_sample_count tk of Inl e \<Rightarrow> False | Inr n \<Rightarrow> n \<noteq> sampleCount tk)"




text \<open>
  A demuxer with one track: \<^verbatim>\<open>stsc\<close> entries (1, 3, 1) and (5, 2, 1), six chunks, samples of
  1000 bytes each, \<open>n\<close> samples by \<^verbatim>\<open>stsz\<close> and one \<^verbatim>\<open>stts\<close> entry of \<open>m\<close> samples. The \<^verbatim>\<open>stsc\<close>
  entries stand for 16 samples.
\<close>

definition scenario_b_demux :: "u32 \<Rightarrow> u32 \<Rightarrow> mp4_demux" where
  "scenario_b_demux n m =
     (demux_zero (replicate 64 0))
       \<lparr>track :=
          [track_zero\<lparr>tk_id := 1, tk_type := MP4_TRACK_TYPE_VIDEO, timescale := 1000,
                      sampleCount := n, sampleSize := Some (replicate (unat n) 1000),
                      chunkCount := 6,
                      chunkOffset := Some [0, 3000, 6000, 9000, 12000, 14000],
                      sampleToChunkEntryCount := 2,
                      sampleToChunkEntries :=
                        Some [\<lparr>firstChunk = 1, samplesPerChunk = 3,
                               sampleDescriptionIndex = 1\<rparr>,
                              \<lparr>firstChunk = 5, samplesPerChunk = 2,
                               sampleDescriptionIndex = 1\<rparr>],
                      timeToSampleEntryCount := 1,
                      timeToSampleEntries := Some [\<lparr>tts_sampleCount = m, sampleDelta = 1\<rparr>]\<rparr>],
        trackCount := 1\<rparr>"

text \<open>
  A demuxer with one track of two samples (10 and 20 bytes) in one chunk at offset 100, whose
  \<^verbatim>\<open>stsc\<close> entries are (1, 1, 1), (2, 0, 1) and (1, 1, 1): the third entry goes back to
  chunk 1.
\<close>

definition overlap_demux :: mp4_demux where
  "overlap_demux =
     (demux_zero (replicate 200 0))
       \<lparr>track :=
          [track_zero\<lparr>tk_id := 1, tk_type := MP4_TRACK_TYPE_VIDEO, timescale := 1000,
                      sampleCount := 2, sampleSize := Some [10, 20],
                      chunkCount := 1, chunkOffset := Some [100],
                      sampleToChunkEntryCount := 3,
                      sampleToChunkEntries :=
                        Some [\<lparr>firstChunk = 1, samplesPerChunk = 1,
                               sampleDescriptionIndex = 1\<rparr>,
                              \<lparr>firstChunk = 2, samplesPerChunk = 0,
                               sampleDescriptionIndex = 1\<rparr>,
                              \<lparr>firstChunk = 1, samplesPerChunk = 1,
                               sampleDescriptionIndex = 1\<rparr>],
                      timeToSampleEntryCount := 1,
                      timeToSampleEntries := Some [\<lparr>tts_sampleCount = 2, sampleDelta = 1\<rparr>]\<rparr>],
        trackCount := 1\<rparr>"

text \<open>
  The array \<^verbatim>\<open>sampleOffset\<close> of the track at position \<open>u\<close> once \<^verbatim>\<open>mp4_demux_open\<close> has returned.
\<close>

definition opened_sample_offsets :: "allocator \<Rightarrow> mp4_demux \<Rightarrow> nat \<Rightarrow> error + u64 list option" where
  "opened_sample_offsets alloc demux u =
     (case mp4_demux_open alloc (Inr demux) of
        Inl e \<Rightarrow> Inl e
      | Inr d \<Rightarrow> Inr (sampleOffset (track d ! u)))"

text \<open>
  In the same way, the array \<^verbatim>\<open>sampleSize\<close> of that track and the field \<^verbatim>\<open>fileSize\<close> of the
  demuxer.
\<close>

definition opened_sample_sizes :: "allocator \<Rightarrow> mp4_demux \<Rightarrow> nat \<Rightarrow> error + u32 list option" where
  "opened_sample_sizes alloc demux u =
     (case mp4_demux_open alloc (Inr demux) of
        Inl e \<Rightarrow> Inl e
      | Inr d \<Rightarrow> Inr (sampleSize (track d ! u)))"

definition opened_file_size :: "allocator \<Rightarrow> mp4_demux \<Rightarrow> error + int" where
  "opened_file_size alloc demux =
     (case mp4_demux_open alloc (Inr demux) of
        Inl e \<Rightarrow> Inl e
      | Inr d \<Rightarrow> Inr (fileSize d))"

text \<open>
  Every chunk of a track ends within the file.
\<close>

definition chunks_within_file :: "mp4_demux \<Rightarrow> mp4_track \<Rightarrow> bool" where
  "chunks_within_file demux tk =
     list_all (\<lambda>ch. chunk_end tk ch \<le> fileSize demux) [1 ..< Suc (unat (chunkCount tk))]"

text \<open>
  A demuxer on a file of 1000 bytes with one track: two samples of 10 and 20 bytes in one
  chunk at offset \<open>off\<close>.
\<close>

definition one_chunk_demux :: "u64 \<Rightarrow> mp4_demux" where
  "one_chunk_demux off =
     (demux_zero (replicate 1000 0))
       \<lparr>track :=
          [track_zero\<lparr>tk_id := 1, tk_type := MP4_TRACK_TYPE_VIDEO, timescale := 1000,
                      sampleCount := 2, sampleSize := Some [10, 20],
                      chunkCount := 1, chunkOffset := Some [off],
                      sampleToChunkEntryCount := 1,
                      sampleToChunkEntries :=
                        Some [\<lparr>firstChunk = 1, samplesPerChunk = 2,
                               sampleDescriptionIndex = 1\<rparr>],
                      timeToSampleEntryCount := 1,
                      timeToSampleEntries := Some [\<lparr>tts_sampleCount = 2, sampleDelta = 1\<rparr>]\<rparr>],
        trackCount := 1\<rparr>"

subsection \<open>The tables of a track and their boxes\<close>







section \<open>Properties\<close>

lemma always_alloc_eq: "always_alloc = (\<lambda>n. True)"
  by (simp add: always_alloc_def fun_eq_iff)

subsection \<open>Movie information\<close>

text \<open>
  C4. The claim: \<^verbatim>\<open>media_info()\<close> returns as modification time the parsed \<^verbatim>\<open>mvhd\<close>
  modification time minus \<^verbatim>\<open>0x7C25B080\<close>. The code assigns \<^verbatim>\<open>creationTime\<close> minus the offset
  to both fields: for a movie created 100 seconds and modified 200 seconds after the Unix
  epoch, it reports 100 as the modification time, where the claim asks for 200.
\<close>

theorem media_info_modification_time_copies_creation_time:
  "mp4_demux_get_media_info
     (Some ((demux_zero [])\<lparr>mv_timescale := 1, mv_creationTime := 0x7c25b080 + 100,
                             mv_modificationTime := 0x7c25b080 + 200\<rparr>)) True
   = Inr \<lparr>mi_duration = 0, mi_creation_time = 100, mi_modification_time = 100,
          mi_track_count = 0\<rparr>"
  by (simp add: mp4_demux_get_media_info_def demux_zero_def ticks_to_us_def
      MP4_MAC_TO_UNIX_EPOCH_OFFSET_def)

subsection \<open>Track information\<close>

text \<open>
  C5, as stated: for an index at or beyond the track count, \<^verbatim>\<open>track_info\<close> fails with
  \<^verbatim>\<open>NOT_FOUND\<close>. It does not: the guard on the index returns \<^verbatim>\<open>EINVAL\<close>. Here the demuxer
  has no track and the index is 0.
\<close>

theorem track_info_out_of_range_counterexample:
  "fst (mp4_demux_get_track_info (Some (demux_zero [])) 0 True) = Inl EINVAL
   \<and> fst (mp4_demux_get_track_info (Some (demux_zero [])) 0 True) \<noteq> Inl ENOENT"
  by (simp add: mp4_demux_get_track_info_def demux_zero_def)

text \<open>
  C5, amended: for every demuxer and every index at or beyond its track count,
  \<^verbatim>\<open>track_info\<close> fails with \<^verbatim>\<open>EINVAL\<close> and leaves the demuxer as it was.
\<close>

theorem track_info_out_of_range:
  assumes "trackCount demux \<le> track_idx"
  shows "mp4_demux_get_track_info (Some demux) track_idx out = (Inl EINVAL, Some demux)"
  using assms by (simp add: mp4_demux_get_track_info_def not_less)

theorem track_info_out_of_range_witness:
  "trackCount ((demux_zero [])\<lparr>track := [track_zero], trackCount := 1\<rparr>) \<le> 1
   \<and> mp4_demux_get_track_info (Some ((demux_zero [])\<lparr>track := [track_zero], trackCount := 1\<rparr>))
        1 True
      = (Inl EINVAL, Some ((demux_zero [])\<lparr>track := [track_zero], trackCount := 1\<rparr>))"
  using track_info_out_of_range
    [of "(demux_zero [])\<lparr>track := [track_zero], trackCount := 1\<rparr>" 1 True]
  by simp

subsection \<open>Reading samples\<close>










lemma array_get_Inl: "array_get a i = Inl e \<Longrightarrow> e = UNDEFINED"
  by (auto simp: array_get_def split: option.splits if_splits)











subsection \<open>The cover\<close>

lemma build_metadata_cover:
  assumes "mp4_demux_build_metadata alloc demux = Inr d'"
  shows "finalCoverOffset d' = finalCoverOffset (select_cover demux)"
    and "finalCoverSize d' = finalCoverSize (select_cover demux)"
    and "finalCoverType d' = finalCoverType (select_cover demux)"
  using assms
  by (auto simp: mp4_demux_build_metadata_def Let_def select_cover_def
      split: sum.splits if_splits)

text \<open>
  C7. The demuxer records a cover by its size: \<^verbatim>\<open>metaCoverSize\<close> and \<^verbatim>\<open>udtaCoverSize\<close> are 0
  until the parser finds one. When \<^verbatim>\<open>mp4_demux_build_metadata\<close> succeeds and a meta cover
  was recorded, the final cover is the meta cover (offset, size and type), whatever the udta
  cover, and \<^verbatim>\<open>mp4_demux_get_metadata_cover\<close> reports its size and type; the udta cover is
  the final one when it was recorded and no meta cover was.
\<close>

theorem cover_prefers_meta:
  assumes "mp4_demux_build_metadata alloc demux = Inr d'"
  shows "(0 < metaCoverSize demux \<longrightarrow>
            finalCoverOffset d' = metaCoverOffset demux
          \<and> finalCoverSize d' = metaCoverSize demux
          \<and> finalCoverType d' = metaCoverType demux
          \<and> mp4_demux_get_metadata_cover (Some d') False 0 True True
              = (Inr \<lparr>cover_size = Some (metaCoverSize demux),
                      cover_type = Some (metaCoverType demux), cover_bytes = None\<rparr>, Some d'))
       \<and> (metaCoverSize demux = 0 \<and> 0 < udtaCoverSize demux \<longrightarrow>
            finalCoverOffset d' = udtaCoverOffset demux
          \<and> finalCoverSize d' = udtaCoverSize demux
          \<and> finalCoverType d' = udtaCoverType demux
          \<and> mp4_demux_get_metadata_cover (Some d') False 0 True True
              = (Inr \<lparr>cover_size = Some (udtaCoverSize demux),
                      cover_type = Some (udtaCoverType demux), cover_bytes = None\<rparr>, Some d'))"
  using build_metadata_cover [OF assms]
  by (auto simp: select_cover_def mp4_demux_get_metadata_cover_def Let_def)

lemma build_two_cover:
  "mp4_demux_build_metadata (\<lambda>n. True) (two_cover_demux s)
   = Inr (select_cover ((two_cover_demux s)\<lparr>finalMetadataCount := 0, finalMetadataKey := Some [],
                                            finalMetadataValue := Some []\<rparr>))"
  by (simp add: mp4_demux_build_metadata_def two_cover_demux_def demux_zero_def
      location_entry_def)

theorem cover_prefers_meta_witness:
  "mp4_demux_get_metadata_cover
     (Some (select_cover ((two_cover_demux 5)\<lparr>finalMetadataCount := 0,
              finalMetadataKey := Some [], finalMetadataValue := Some []\<rparr>))) False 0 True True
   = (Inr \<lparr>cover_size = Some 5, cover_type = Some MP4_METADATA_COVER_TYPE_PNG,
           cover_bytes = None\<rparr>,
      Some (select_cover ((two_cover_demux 5)\<lparr>finalMetadataCount := 0,
              finalMetadataKey := Some [], finalMetadataValue := Some []\<rparr>)))
   \<and> mp4_demux_get_metadata_cover
     (Some (select_cover ((two_cover_demux 0)\<lparr>finalMetadataCount := 0,
              finalMetadataKey := Some [], finalMetadataValue := Some []\<rparr>))) False 0 True True
   = (Inr \<lparr>cover_size = Some 7, cover_type = Some MP4_METADATA_COVER_TYPE_JPEG,
           cover_bytes = None\<rparr>,
      Some (select_cover ((two_cover_demux 0)\<lparr>finalMetadataCount := 0,
              finalMetadataKey := Some [], finalMetadataValue := Some []\<rparr>)))"
proof -
  have m: "metaCoverSize (two_cover_demux s) = s"
    "metaCoverType (two_cover_demux s) = MP4_METADATA_COVER_TYPE_PNG"
    "udtaCoverSize (two_cover_demux s) = 7"
    "udtaCoverType (two_cover_demux s) = MP4_METADATA_COVER_TYPE_JPEG" for s
    by (simp_all add: two_cover_demux_def)
  have p: "(0 :: u32) < 5" "(0 :: u32) < 7"
    by simp_all
  from cover_prefers_meta [OF build_two_cover [of 5]] m [of 5] p
  have 1: "mp4_demux_get_metadata_cover
     (Some (select_cover ((two_cover_demux 5)\<lparr>finalMetadataCount := 0,
              finalMetadataKey := Some [], finalMetadataValue := Some []\<rparr>))) False 0 True True
   = (Inr \<lparr>cover_size = Some 5, cover_type = Some MP4_METADATA_COVER_TYPE_PNG,
           cover_bytes = None\<rparr>,
      Some (select_cover ((two_cover_demux 5)\<lparr>finalMetadataCount := 0,
              finalMetadataKey := Some [], finalMetadataValue := Some []\<rparr>)))"
    by simp
  from cover_prefers_meta [OF build_two_cover [of 0]] m [of 0] p
  have 2: "mp4_demux_get_metadata_cover
     (Some (select_cover ((two_cover_demux 0)\<lparr>finalMetadataCount := 0,
              finalMetadataKey := Some [], finalMetadataValue := Some []\<rparr>))) False 0 True True
   = (Inr \<lparr>cover_size = Some 7, cover_type = Some MP4_METADATA_COVER_TYPE_JPEG,
           cover_bytes = None\<rparr>,
      Some (select_cover ((two_cover_demux 0)\<lparr>finalMetadataCount := 0,
              finalMetadataKey := Some [], finalMetadataValue := Some []\<rparr>)))"
    by simp
  from 1 2 show ?thesis by blast
qed

subsection \<open>The chapter list\<close>

lemma chapters_demux_tables:
  "(case build_tracks_loop (\<lambda>n. True) 2 0 build_locals_init (track (chapters_demux 101)) of
      Inl e \<Rightarrow> False
    | Inr (l, tks) \<Rightarrow>
        chapTk l = Some 1
        \<and> sampleCount (link_video_metadata l tks ! 1) = 101
        \<and> timescale (link_video_metadata l tks ! 1) = 1
        \<and> sampleSize (link_video_metadata l tks ! 1) = Some (replicate 101 3)
        \<and> sampleOffset (link_video_metadata l tks ! 1) = Some (replicate 101 0)
        \<and> sampleDecodingTime (link_video_metadata l tks ! 1) = Some (map of_nat [0..<101]))"
  by code_simp

lemma fread_head:
  assumes "take 3 (file_bytes d) = [0, 1, 65]"
  shows "fread_item (d\<lparr>fpos := 0\<rparr>) 2 = (Some [0, 1], d\<lparr>fpos := 2\<rparr>)"
    and "fread_item (d\<lparr>fpos := 2\<rparr>) 1 = (Some [65], d\<lparr>fpos := 3\<rparr>)"
proof -
  obtain rest where f: "file_bytes d = [0, 1, 65] @ rest"
    using assms by (metis append_take_drop_id)
  show "fread_item (d\<lparr>fpos := 0\<rparr>) 2 = (Some [0, 1], d\<lparr>fpos := 2\<rparr>)"
    by (simp add: fread_item_def f)
  show "fread_item (d\<lparr>fpos := 2\<rparr>) 1 = (Some [65], d\<lparr>fpos := 3\<rparr>)"
    by (simp add: fread_item_def f)
qed

lemma chapters_loop_step:
  assumes "sampleSize chap = Some (replicate N 3)" and "sampleOffset chap = Some (replicate N 0)"
    and "sampleDecodingTime chap = Some ts" and "length ts = N" and "timescale chap = 1"
    and "take 3 (file_bytes d) = [0, 1, 65]"
    and "length (chaptersName d) = 100" and "length (chaptersTime d) = 100"
    and "i < N"
  shows "build_chapters_loop (\<lambda>n. True) chap (Suc n) i d =
           (if unat (chaptersCount d) < 100
            then build_chapters_loop (\<lambda>n. True) chap n (Suc i)
                   (d\<lparr>fpos := 3,
                      chaptersName := (chaptersName d)[unat (chaptersCount d) := Some [65]],
                      chaptersTime := (chaptersTime d)[unat (chaptersCount d) := ts ! i * 1000000],
                      chaptersCount := chaptersCount d + 1\<rparr>)
            else Inl UNDEFINED)"
  using assms fread_head [OF assms(6)]
  by (simp add: array_get_def fseeko_set_def be16_def ticks_to_us_def)


lemma chapters_loop_result:
  assumes "sampleSize chap = Some (replicate N 3)" and "sampleOffset chap = Some (replicate N 0)"
    and "sampleDecodingTime chap = Some ts" and "length ts = N" and "timescale chap = 1"
    and "take 3 (file_bytes d) = [0, 1, 65]"
    and "length (chaptersName d) = 100" and "length (chaptersTime d) = 100"
    and "i + n \<le> N" and "unat (chaptersCount d) \<le> 100"
  shows "(100 < unat (chaptersCount d) + n
            \<longrightarrow> build_chapters_loop (\<lambda>n. True) chap n i d = Inl UNDEFINED)
       \<and> (unat (chaptersCount d) + n \<le> 100
            \<longrightarrow> (\<exists>d'. build_chapters_loop (\<lambda>n. True) chap n i d = Inr d'
                      \<and> chaptersCount d' = chaptersCount d + of_nat n))"
  using assms(6-)
proof (induction n arbitrary: i d)
  case 0
  then show ?case by simp
next
  case (Suc n)
  from Suc.prems have i: "i < N" by simp
  note step = chapters_loop_step [OF assms(1-5) Suc.prems(1-3) i, of n]
  show ?case
  proof (cases "unat (chaptersCount d) < 100")
    case False
    with Suc.prems step show ?thesis by simp
  next
    case True
    define d1 where "d1 = d\<lparr>fpos := 3,
                      chaptersName := (chaptersName d)[unat (chaptersCount d) := Some [65]],
                      chaptersTime := (chaptersTime d)[unat (chaptersCount d) := ts ! i * 1000000],
                      chaptersCount := chaptersCount d + 1\<rparr>"
    have u: "unat (chaptersCount d1) = unat (chaptersCount d) + 1"
      using True by (simp add: d1_def unat_word_ariths)
    have "(100 < unat (chaptersCount d1) + n
            \<longrightarrow> build_chapters_loop (\<lambda>n. True) chap n (Suc i) d1 = Inl UNDEFINED)
       \<and> (unat (chaptersCount d1) + n \<le> 100
            \<longrightarrow> (\<exists>d'. build_chapters_loop (\<lambda>n. True) chap n (Suc i) d1 = Inr d'
                      \<and> chaptersCount d' = chaptersCount d1 + of_nat n))"
      using Suc.prems True u by (intro Suc.IH) (simp_all add: d1_def)
    moreover have "build_chapters_loop (\<lambda>n. True) chap (Suc n) i d
                   = build_chapters_loop (\<lambda>n. True) chap n (Suc i) d1"
      using step True by (simp add: d1_def)
    moreover have "chaptersCount d1 + of_nat n = chaptersCount d + of_nat (Suc n)"
      by (simp add: d1_def)
    ultimately show ?thesis
      using u by simp
  qed
qed

text \<open>
  C6. The claim: the chapter list holds at most 100 entries, later chapter samples are
  dropped and \<^verbatim>\<open>open()\<close> still succeeds. The code has the two arrays of
  \<^verbatim>\<open>MP4_CHAPTERS_MAX\<close> elements but no test of \<^verbatim>\<open>chaptersCount\<close>: with a chapter track of
  101 samples it stores the last name at index 100, outside \<^verbatim>\<open>chaptersName\<close>.
\<close>

theorem chapters_beyond_max_undefined:
  "mp4_demux_build_tracks (\<lambda>n. True) (chapters_demux 101) = Inl UNDEFINED"
proof -
  obtain l tks where r: "build_tracks_loop (\<lambda>n. True) 2 0 build_locals_init
      (track (chapters_demux 101)) = Inr (l, tks)"
    and f: "chapTk l = Some 1"
      "sampleCount (link_video_metadata l tks ! 1) = 101"
      "timescale (link_video_metadata l tks ! 1) = 1"
      "sampleSize (link_video_metadata l tks ! 1) = Some (replicate 101 3)"
      "sampleOffset (link_video_metadata l tks ! 1) = Some (replicate 101 0)"
      "sampleDecodingTime (link_video_metadata l tks ! 1) = Some (map of_nat [0..<101])"
    using chapters_demux_tables
    by (cases "build_tracks_loop (\<lambda>n. True) 2 0 build_locals_init (track (chapters_demux 101))")
       auto
  define d1 where "d1 = (chapters_demux 101)\<lparr>track := link_video_metadata l tks\<rparr>"
  have "build_chapters_loop (\<lambda>n. True) (link_video_metadata l tks ! 1) 101 0 d1 = Inl UNDEFINED"
    using chapters_loop_result [OF f(4) f(5) f(6) _ f(3), of d1 0 101]
    by (simp add: d1_def chapters_demux_def demux_zero_def chapter_file_def MP4_CHAPTERS_MAX_def)
  moreover have "length (track (chapters_demux 101)) = 2"
    by (simp add: chapters_demux_def)
  ultimately show ?thesis
    using r f by (simp add: mp4_demux_build_tracks_def d1_def)
qed

subsection \<open>The sample offsets of a track\<close>

lemma length_run_offsets: "length (run_offsets b xs) = length xs"
  by (induction xs arbitrary: b) auto

lemma nth_run_offsets: "m < length xs \<Longrightarrow> run_offsets b xs ! m = b + sum_list (take m xs)"
proof (induction xs arbitrary: b m)
  case Nil
  then show ?case by simp
next
  case (Cons x xs)
  then show ?case by (cases m) (auto simp: add.assoc)
qed

lemma spec_sample_offset_prefix:
  assumes "i < length cs"
  shows "spec_sample_offset c szs (cs @ rest) i = spec_sample_offset c szs cs i"
proof -
  have "filter (\<lambda>j. (cs @ rest) ! j = (cs @ rest) ! i) [0..<i]
        = filter (\<lambda>j. cs ! j = cs ! i) [0..<i]"
    using assms by (intro filter_cong) (auto simp: nth_append)
  with assms show ?thesis
    by (simp add: spec_sample_offset_def nth_append)
qed

lemma map_nth_upt_take_drop:
  "n + m \<le> length xs \<Longrightarrow> map (\<lambda>j. xs ! j) [n..<n + m] = take m (drop n xs)"
  by (intro nth_equalityI) auto

lemma spec_sample_offset_new:
  assumes "\<forall>x\<in>set cs. x \<noteq> ch" and "m < k" and "length cs + k \<le> length szs"
  shows "spec_sample_offset c szs (cs @ replicate k ch) (length cs + m)
         = c ! (ch - 1) + sum_list (take m (map ucast (take k (drop (length cs) szs))))"
proof -
  let ?n = "length cs"
  have "filter (\<lambda>j. (cs @ replicate k ch) ! j = ch) [0..<?n + m]
        = filter (\<lambda>j. (cs @ replicate k ch) ! j = ch) [0..<?n]
          @ filter (\<lambda>j. (cs @ replicate k ch) ! j = ch) [?n..<?n + m]"
    by (simp add: upt_add_eq_append [of 0 ?n m] del: upt_add_eq_append)
  also have "filter (\<lambda>j. (cs @ replicate k ch) ! j = ch) [0..<?n] = []"
    using assms(1) by (auto simp: filter_empty_conv nth_append)
  also have "filter (\<lambda>j. (cs @ replicate k ch) ! j = ch) [?n..<?n + m] = [?n..<?n + m]"
    using assms(2) by (auto simp: filter_id_conv nth_append)
  finally have f: "filter (\<lambda>j. (cs @ replicate k ch) ! j = ch) [0..<?n + m] = [?n..<?n + m]"
    by simp
  have "map (\<lambda>j. (ucast (szs ! j) :: u64)) [?n..<?n + m]
        = map (\<lambda>j. map ucast szs ! j) [?n..<?n + m]"
    using assms by (intro map_cong) auto
  also have "\<dots> = take m (drop ?n (map ucast szs))"
    using assms by (intro map_nth_upt_take_drop) simp
  also have "\<dots> = take m (map ucast (take k (drop ?n szs)))"
    using assms(2) by (simp add: take_map drop_map min_def)
  finally have s: "map (\<lambda>j. (ucast (szs ! j) :: u64)) [?n..<?n + m]
                   = take m (map ucast (take k (drop ?n szs)))" .
  have "(cs @ replicate k ch) ! (?n + m) = ch"
    using assms(2) by (simp add: nth_append)
  with f s show ?thesis
    by (simp add: spec_sample_offset_def)
qed

lemma spec_offsets_append:
  assumes "\<forall>x\<in>set cs. x \<noteq> ch" and "length cs + k \<le> length szs"
  shows "map (spec_sample_offset c szs (cs @ replicate k ch)) [0..<length cs + k]
         = map (spec_sample_offset c szs cs) [0..<length cs]
           @ run_offsets (c ! (ch - 1)) (map ucast (take k (drop (length cs) szs)))"
proof (intro nth_equalityI)
  show "length (map (spec_sample_offset c szs (cs @ replicate k ch)) [0..<length cs + k])
        = length (map (spec_sample_offset c szs cs) [0..<length cs]
           @ run_offsets (c ! (ch - 1)) (map ucast (take k (drop (length cs) szs))))"
    using assms(2) by (simp add: length_run_offsets)
next
  fix i
  assume "i < length (map (spec_sample_offset c szs (cs @ replicate k ch)) [0..<length cs + k])"
  then have i: "i < length cs + k" by simp
  show "map (spec_sample_offset c szs (cs @ replicate k ch)) [0..<length cs + k] ! i
        = (map (spec_sample_offset c szs cs) [0..<length cs]
           @ run_offsets (c ! (ch - 1)) (map ucast (take k (drop (length cs) szs)))) ! i"
  proof (cases "i < length cs")
    case True
    with i show ?thesis
      by (simp add: nth_append spec_sample_offset_prefix)
  next
    case False
    then obtain m where m: "i = length cs + m" "m < k"
      using i by (metis add_diff_inverse_nat nat_add_left_cancel_less)
    with assms spec_sample_offset_new [OF assms(1) m(2) assms(2), of c] show ?thesis
      by (simp add: nth_append nth_run_offsets)
  qed
qed

lemma fill_samples_success:
  assumes "fill_samples (Some c) (Some szs) k ci off n so = Inr (n', so')"
    and "length so < 2 ^ 32"
  shows "unat n' = unat n + k
         \<and> (0 < k \<longrightarrow> unat n + k \<le> length so \<and> unat n + k \<le> length szs
                        \<and> unat ci < length c)
         \<and> so' = take (unat n) so
                  @ run_offsets (c ! unat ci + off) (map ucast (take k (drop (unat n) szs)))
                  @ drop (unat n + k) so"
  using assms
proof (induction k arbitrary: off n so)
  case 0
  then show ?case by simp
next
  case (Suc k)
  from Suc.prems(1) have ci: "unat ci < length c" and n: "unat n < length so"
    and ns: "unat n < length szs"
    by (auto simp: array_get_def split: if_splits)
  with Suc.prems(1) have r: "fill_samples (Some c) (Some szs) k ci (off + ucast (szs ! unat n))
      (n + 1) (so[unat n := c ! unat ci + off]) = Inr (n', so')"
    by (simp add: array_get_def)
  have n1: "unat (n + 1) = unat n + 1"
    using n Suc.prems(2) by (simp add: unat_word_ariths)
  note IH = Suc.IH [OF r, simplified n1]
  have t: "take (Suc k) (drop (unat n) szs) = szs ! unat n # take k (drop (Suc (unat n)) szs)"
    for k using ns by (simp add: Cons_nth_drop_Suc [symmetric])
  have u: "take (Suc (unat n)) (so[unat n := v]) = take (unat n) so @ [v]" for v
    using n by (simp add: take_Suc_conv_app_nth)
  have t0: "take (Suc 0) (drop (unat n) szs) = [szs ! unat n]"
    using t [where k = 0] ns by (simp add: take_Suc_conv_app_nth)
  from IH Suc.prems(2) ci n ns show ?case
    by (cases "k = 0") (simp_all add: t t0 u add.assoc)
qed

lemma fill_chunks_no_samples:
  "fill_chunks co ss j 0 ci n so = Inr (ci + of_nat j, n, so)"
  by (induction j arbitrary: ci) simp_all

lemma concat_replicate_0: "concat (map (replicate 0) xs) = []"
  by (induction xs) simp_all

lemma fill_chunks_success:
  assumes "fill_chunks (Some c) (Some szs) j spc ci n so = Inr (ci', n', so')"
    and "length so < 2 ^ 32" and "length c < 2 ^ 32" and "0 < unat spc"
    and "length cs = unat n"
    and "take (unat n) so = map (spec_sample_offset c szs cs) [0..<unat n]"
    and "\<forall>x\<in>set cs. x < unat ci + 1"
  shows "ci' = ci + of_nat j \<and> unat n' = unat n + j * unat spc \<and> length so' = length so
         \<and> (0 < j \<longrightarrow> unat ci + j \<le> length c \<and> unat n' \<le> length so \<and> unat n' \<le> length szs)
         \<and> take (unat n') so'
            = map (spec_sample_offset c szs
                     (cs @ concat (map (replicate (unat spc)) [unat ci + 1 ..< unat ci + 1 + j])))
                [0..<unat n']"
  using assms(1,2,5-)
proof (induction j arbitrary: ci n so cs)
  case 0
  then show ?case by simp
next
  case (Suc j)
  let ?k = "unat spc"
  let ?ch = "unat ci + 1"
  from Suc.prems(1) obtain n1 so1 where
    s: "fill_samples (Some c) (Some szs) ?k ci 0 n so = Inr (n1, so1)"
    and r: "fill_chunks (Some c) (Some szs) j spc (ci + 1) n1 so1 = Inr (ci', n', so')"
    by (auto split: sum.splits)
  from fill_samples_success [OF s Suc.prems(2)] assms(4)
  have n1: "unat n1 = unat n + ?k" and b: "unat n + ?k \<le> length so" "unat n + ?k \<le> length szs"
    "unat ci < length c"
    and so1: "so1 = take (unat n) so
                  @ run_offsets (c ! unat ci) (map ucast (take ?k (drop (unat n) szs)))
                  @ drop (unat n + ?k) so"
    by simp_all
  have ci1: "unat (ci + 1) = unat ci + 1"
    using b(3) assms(3) by (simp add: unat_word_ariths)
  have len1: "length so1 = length so"
    using b by (simp add: so1 length_run_offsets)
  have ne: "\<forall>x\<in>set cs. x \<noteq> ?ch"
    using Suc.prems(5) by auto
  have "take (unat n1) so1 = take (unat n) so
          @ run_offsets (c ! unat ci) (map ucast (take ?k (drop (unat n) szs)))"
    using b by (simp add: so1 n1 length_run_offsets)
  also have "\<dots> = map (spec_sample_offset c szs (cs @ replicate ?k ?ch)) [0..<length cs + ?k]"
    using spec_offsets_append [OF ne, of ?k szs c] b Suc.prems(3,4) by simp
  finally have inv1: "take (unat n1) so1
      = map (spec_sample_offset c szs (cs @ replicate ?k ?ch)) [0..<unat n1]"
    by (simp add: n1 Suc.prems(3))
  have bound1: "\<forall>x\<in>set (cs @ replicate ?k ?ch). x < unat (ci + 1) + 1"
    using Suc.prems(5) by (auto simp: ci1)
  have l1: "length (cs @ replicate ?k ?ch) = unat n1"
    by (simp add: n1 Suc.prems(3))
  have len1': "length so1 < 2 ^ 32"
    using len1 Suc.prems(2) by simp
  from Suc.IH [OF r len1' l1 inv1 bound1]
  have IH: "ci' = ci + 1 + of_nat j" "unat n' = unat n1 + j * ?k" "length so' = length so1"
    "0 < j \<longrightarrow> unat (ci + 1) + j \<le> length c \<and> unat n' \<le> length so1 \<and> unat n' \<le> length szs"
    "take (unat n') so'
       = map (spec_sample_offset c szs
                ((cs @ replicate ?k ?ch)
                 @ concat (map (replicate ?k) [unat (ci + 1) + 1 ..< unat (ci + 1) + 1 + j])))
           [0..<unat n']"
    by blast+
  have e: "cs @ concat (map (replicate ?k) [?ch ..< ?ch + Suc j])
           = (cs @ replicate ?k ?ch)
             @ concat (map (replicate ?k) [unat (ci + 1) + 1 ..< unat (ci + 1) + 1 + j])"
    unfolding ci1 by (simp add: upt_conv_Cons del: upt_Suc)
  have a: "ci' = ci + of_nat (Suc j)"
    using IH(1) by simp
  have b': "unat n' = unat n + Suc j * ?k"
    using IH(2) n1 by simp
  have c': "length so' = length so"
    using IH(3) len1 by simp
  have d: "unat ci + Suc j \<le> length c \<and> unat n' \<le> length so \<and> unat n' \<le> length szs"
  proof (cases "j = 0")
    case True
    with b IH(2) n1 show ?thesis by simp
  next
    case False
    with IH(4) ci1 len1 show ?thesis by simp
  qed
  from a b' c' d IH(5) show ?case
    unfolding e by blast
qed

lemma length_concat_replicate:
  "length (concat (map (replicate k) [a..<b])) = (b - a) * k"
  by (simp add: length_concat comp_def sum_list_triv)

lemma fill_chunks_segment:
  assumes r: "fill_chunks (Some c) (Some szs) (unat (f - lfc)) lspc ci n so = Inr (ci', n', so')"
    and "length so < 2 ^ 32" and "length c < 2 ^ 32"
    and ci: "ci + 1 = lfc" and lfc: "1 \<le> lfc" and le: "lfc \<le> f"
    and len: "length cs = unat n"
    and inv: "take (unat n) so = map (spec_sample_offset c szs cs) [0..<unat n]"
    and cs: "\<forall>x\<in>set cs. 1 \<le> x \<and> x < unat lfc \<and> x \<le> length c"
    and nb: "unat n \<le> length szs"
  shows "ci' + 1 = f \<and> length so' = length so \<and> unat n' \<le> length szs
         \<and> length (cs @ concat (map (replicate (unat lspc)) [unat lfc ..< unat f])) = unat n'
         \<and> take (unat n') so'
            = map (spec_sample_offset c szs
                     (cs @ concat (map (replicate (unat lspc)) [unat lfc ..< unat f])))
                [0..<unat n']
         \<and> (\<forall>x\<in>set (cs @ concat (map (replicate (unat lspc)) [unat lfc ..< unat f])).
               1 \<le> x \<and> x < unat f \<and> x \<le> length c)"
proof -
  let ?j = "unat (f - lfc)"
  have j: "unat lfc + ?j = unat f"
    using le by (simp add: unat_sub word_le_nat_alt)
  have lfc0: "lfc \<noteq> 0"
    using lfc by auto
  have uci: "unat ci + 1 = unat lfc"
  proof -
    have "ci = lfc - 1" by (simp add: ci [symmetric])
    then show ?thesis using lfc0 by (simp add: unat_minus_one unat_gt_0 Suc_leI)
  qed
  show ?thesis
  proof (cases "lspc = 0")
    case True
    with r have "ci' = ci + of_nat ?j" "n' = n" "so' = so"
      by (simp_all add: fill_chunks_no_samples)
    moreover have "ci + of_nat ?j + 1 = f"
      by (simp add: ci [symmetric])
    ultimately show ?thesis
      using True len inv cs nb le by (auto simp: concat_replicate_0 word_le_nat_alt)
  next
    case False
    then have k: "0 < unat lspc"
      by (simp add: unat_gt_0)
    have b: "\<forall>x\<in>set cs. x < unat ci + 1"
      using cs uci by simp
    note F = fill_chunks_success [OF r assms(2,3) k len inv b]
    from F have ci': "ci' = ci + of_nat ?j" and n': "unat n' = unat n + ?j * unat lspc"
      and l: "length so' = length so"
      and bd: "0 < ?j \<longrightarrow> unat ci + ?j \<le> length c \<and> unat n' \<le> length szs"
      and t: "take (unat n') so'
            = map (spec_sample_offset c szs
                     (cs @ concat (map (replicate (unat lspc)) [unat ci + 1 ..< unat ci + 1 + ?j])))
                [0..<unat n']"
      by blast+
    have up: "[unat ci + 1 ..< unat ci + 1 + ?j] = [unat lfc ..< unat f]"
      using uci j by simp
    have "ci' + 1 = f"
      using ci' by (simp add: ci [symmetric])
    moreover have "unat n' \<le> length szs"
      using bd n' nb by (cases "?j = 0") simp_all
    moreover have "length (cs @ concat (map (replicate (unat lspc)) [unat lfc ..< unat f])) = unat n'"
    proof -
      have "unat f - unat lfc = ?j" using j by simp
      then show ?thesis
        using n' len by (simp add: length_concat_replicate)
    qed
    moreover have "\<forall>x\<in>set (cs @ concat (map (replicate (unat lspc)) [unat lfc ..< unat f])).
               1 \<le> x \<and> x < unat f \<and> x \<le> length c"
      using cs bd uci j lfc0 by (auto simp: unat_gt_0 word_le_nat_alt)
    ultimately show ?thesis
      using l t unfolding up by blast
  qed
qed

lemma fill_entries_success:
  assumes "fill_entries (Some c) (Some szs) es lfc lspc ci n so = Inr (lfc', lspc', ci', n', so')"
    and "length so < 2 ^ 32" and "length c < 2 ^ 32"
    and "ci + 1 = lfc" and "1 \<le> lfc"
    and "sorted (map (\<lambda>e. unat (firstChunk e)) es)" and "\<forall>e\<in>set es. lfc \<le> firstChunk e"
    and "length cs = unat n"
    and "take (unat n) so = map (spec_sample_offset c szs cs) [0..<unat n]"
    and "\<forall>x\<in>set cs. 1 \<le> x \<and> x < unat lfc \<and> x \<le> length c"
    and "unat n \<le> length szs"
    and "p = \<lparr>firstChunk = lfc, samplesPerChunk = lspc, sampleDescriptionIndex = d\<rparr>"
  shows "lfc' = firstChunk (last (p # es)) \<and> lspc' = samplesPerChunk (last (p # es))
         \<and> ci' + 1 = lfc' \<and> 1 \<le> lfc' \<and> length so' = length so \<and> unat n' \<le> length szs
         \<and> length (cs @ expand_closed (p # es)) = unat n'
         \<and> take (unat n') so'
            = map (spec_sample_offset c szs (cs @ expand_closed (p # es))) [0..<unat n']
         \<and> (\<forall>x\<in>set (cs @ expand_closed (p # es)). 1 \<le> x \<and> x < unat lfc' \<and> x \<le> length c)"
  using assms(1,2,4-)
proof (induction es arbitrary: lfc lspc ci n so cs d p)
  case Nil
  then show ?case by simp
next
  case (Cons e es)
  from Cons.prems(1) obtain ci1 n1 so1 where
    s: "fill_chunks (Some c) (Some szs) (unat (firstChunk e - lfc)) lspc ci n so
        = Inr (ci1, n1, so1)"
    and r: "fill_entries (Some c) (Some szs) es (firstChunk e) (samplesPerChunk e) ci1 n1 so1
        = Inr (lfc', lspc', ci', n', so')"
    by (auto split: sum.splits)
  have le: "lfc \<le> firstChunk e"
    using Cons.prems(6) by simp
  let ?cs1 = "cs @ concat (map (replicate (unat lspc)) [unat lfc ..< unat (firstChunk e)])"
  from fill_chunks_segment [OF s Cons.prems(2) assms(3) Cons.prems(3,4) le Cons.prems(7,8,9,10)]
  have S: "ci1 + 1 = firstChunk e" "length so1 = length so" "unat n1 \<le> length szs"
    "length ?cs1 = unat n1"
    "take (unat n1) so1 = map (spec_sample_offset c szs ?cs1) [0..<unat n1]"
    "\<forall>x\<in>set ?cs1. 1 \<le> x \<and> x < unat (firstChunk e) \<and> x \<le> length c"
    by blast+
  have l1: "length so1 < 2 ^ 32"
    using S(2) Cons.prems(2) by simp
  have f1: "1 \<le> firstChunk e"
    using Cons.prems(4) le by simp
  have so: "sorted (map (\<lambda>e. unat (firstChunk e)) es)"
    using Cons.prems(5) by simp
  have al: "\<forall>e'\<in>set es. firstChunk e \<le> firstChunk e'"
    using Cons.prems(5) by (auto simp: word_le_nat_alt)
  have e: "e = \<lparr>firstChunk = firstChunk e, samplesPerChunk = samplesPerChunk e,
                sampleDescriptionIndex = sampleDescriptionIndex e\<rparr>"
    by simp
  note IH = Cons.IH [OF r l1 S(1) f1 so al S(4) S(5) S(6) S(3) e]
  have x: "cs @ expand_closed (p # e # es) = ?cs1 @ expand_closed (e # es)"
    by (simp add: Cons.prems(11))
  have la: "last (p # e # es) = last (e # es)"
    by simp
  from IH have "length so' = length so1"
    by blast
  then have "length so' = length so"
    using S(2) by simp
  with IH show ?case
    unfolding x la by blast
qed

lemma fill_samples_count:
  "fill_samples co ss k ci off n so = Inr (n', so') \<Longrightarrow> n' = n + of_nat k \<and> length so' = length so"
proof (induction k arbitrary: off n so)
  case 0
  then show ?case by simp
next
  case (Suc k)
  from Suc.prems obtain c :: u64 and sz :: u32 where
    "fill_samples co ss k ci (off + ucast sz) (n + 1) (so[unat n := c + off]) = Inr (n', so')"
    by (auto split: sum.splits if_splits)
  from Suc.IH [OF this] show ?case by simp
qed

lemma fill_chunks_count:
  "fill_chunks co ss j spc ci n so = Inr (ci', n', so') \<Longrightarrow>
     ci' = ci + of_nat j \<and> n' = n + of_nat j * spc \<and> length so' = length so"
proof (induction j arbitrary: ci n so)
  case 0
  then show ?case by simp
next
  case (Suc j)
  from Suc.prems obtain n1 so1 where
    s: "fill_samples co ss (unat spc) ci 0 n so = Inr (n1, so1)"
    and r: "fill_chunks co ss j spc (ci + 1) n1 so1 = Inr (ci', n', so')"
    by (auto split: sum.splits)
  from fill_samples_count [OF s] Suc.IH [OF r] show ?case
    by (simp add: algebra_simps)
qed

lemma fill_entries_count:
  "fill_entries co ss es lfc lspc ci n so = Inr (lfc', lspc', ci', n', so') \<Longrightarrow>
     stsc_count_loop es lfc lspc n = (lfc', lspc', n') \<and> length so' = length so"
proof (induction es arbitrary: lfc lspc ci n so)
  case Nil
  then show ?case by simp
next
  case (Cons e es)
  from Cons.prems obtain ci1 n1 so1 where
    s: "fill_chunks co ss (unat (firstChunk e - lfc)) lspc ci n so = Inr (ci1, n1, so1)"
    and r: "fill_entries co ss es (firstChunk e) (samplesPerChunk e) ci1 n1 so1
            = Inr (lfc', lspc', ci', n', so')"
    by (auto split: sum.splits)
  from fill_chunks_count [OF s] Cons.IH [OF r] show ?case
    by simp
qed

lemma fill_samples_missing:
  "co = None \<or> ss = None \<Longrightarrow> fill_samples co ss k ci off n so = Inr (n', so') \<Longrightarrow> k = 0"
  by (cases k) (auto simp: array_get_def split: sum.splits if_splits option.splits)

lemma fill_chunks_missing:
  "co = None \<or> ss = None \<Longrightarrow> fill_chunks co ss j spc ci n so = Inr (ci', n', so') \<Longrightarrow> n' = n"
proof (induction j arbitrary: ci n so)
  case 0
  then show ?case by simp
next
  case (Suc j)
  from Suc.prems(2) obtain n1 so1 where
    s: "fill_samples co ss (unat spc) ci 0 n so = Inr (n1, so1)"
    and r: "fill_chunks co ss j spc (ci + 1) n1 so1 = Inr (ci', n', so')"
    by (auto split: sum.splits)
  from fill_samples_missing [OF Suc.prems(1) s] fill_samples_count [OF s] have "n1 = n"
    by simp
  with Suc.IH [OF Suc.prems(1) r] show ?case by simp
qed

lemma fill_entries_missing:
  "co = None \<or> ss = None \<Longrightarrow>
   fill_entries co ss es lfc lspc ci n so = Inr (lfc', lspc', ci', n', so') \<Longrightarrow> n' = n"
proof (induction es arbitrary: lfc lspc ci n so)
  case Nil
  then show ?case by simp
next
  case (Cons e es)
  from Cons.prems(2) obtain ci1 n1 so1 where
    s: "fill_chunks co ss (unat (firstChunk e - lfc)) lspc ci n so = Inr (ci1, n1, so1)"
    and r: "fill_entries co ss es (firstChunk e) (samplesPerChunk e) ci1 n1 so1
            = Inr (lfc', lspc', ci', n', so')"
    by (auto split: sum.splits)
  from fill_chunks_missing [OF Cons.prems(1) s] Cons.IH [OF Cons.prems(1) r] show ?case
    by simp
qed

lemma array_take_Inr:
  "array_take n a = Inr xs \<Longrightarrow> xs = take n (case a of None \<Rightarrow> [] | Some ys \<Rightarrow> ys)"
  by (auto simp: array_take_def split: if_splits option.splits)

lemma expand_stsc_closed:
  "expand_closed (e # es)
   @ concat (map (replicate (unat (samplesPerChunk (last (e # es)))))
               [unat (firstChunk (last (e # es))) ..< Suc cc])
   = expand_stsc (e # es) cc"
  by (induction es arbitrary: e) simp_all

lemma expand_stsc_pending:
  assumes "samplesPerChunk p = 0"
  shows "expand_closed (p # es)
   @ concat (map (replicate (unat (samplesPerChunk (last (p # es)))))
               [unat (firstChunk (last (p # es))) ..< Suc cc])
   = expand_stsc es cc"
proof (cases es)
  case Nil
  with assms show ?thesis by (simp add: concat_replicate_0)
next
  case (Cons e es')
  with assms expand_stsc_closed [of e es' cc] show ?thesis
    by (simp add: concat_replicate_0)
qed

lemma unat_u32_less: "unat (w :: u32) < 2 ^ 32"
  using unsigned_less [of w, where ?'a = nat] by simp

lemma fill_chunks_last:
  assumes r: "fill_chunks (Some c) (Some szs) (unat (cc - lfc + 1)) lspc ci n so = Inr (ci', n', so')"
    and ls: "length so < 2 ^ 32" and lc: "length c = unat cc"
    and ci: "ci + 1 = lfc" and lfc: "1 \<le> lfc"
    and len: "length cs = unat n"
    and inv: "take (unat n) so = map (spec_sample_offset c szs cs) [0..<unat n]"
    and cs: "\<forall>x\<in>set cs. 1 \<le> x \<and> x < unat lfc \<and> x \<le> length c"
    and nb: "unat n \<le> length szs"
  shows "length so' = length so \<and> unat n' \<le> length szs
         \<and> length (cs @ concat (map (replicate (unat lspc)) [unat lfc ..< Suc (unat cc)])) = unat n'
         \<and> take (unat n') so'
            = map (spec_sample_offset c szs
                     (cs @ concat (map (replicate (unat lspc)) [unat lfc ..< Suc (unat cc)])))
                [0..<unat n']
         \<and> (\<forall>x\<in>set (cs @ concat (map (replicate (unat lspc)) [unat lfc ..< Suc (unat cc)])).
               1 \<le> x \<and> x \<le> length c)"
proof -
  let ?j = "unat (cc - lfc + 1)"
  have lfc0: "lfc \<noteq> 0"
    using lfc by auto
  have uci: "unat ci + 1 = unat lfc"
  proof -
    have "ci = lfc - 1" by (simp add: ci [symmetric])
    then show ?thesis using lfc0 by (simp add: unat_minus_one unat_gt_0 Suc_leI)
  qed
  have lc32: "length c < 2 ^ 32"
    using lc unat_u32_less [of cc] by simp
  show ?thesis
  proof (cases "lspc = 0")
    case True
    with r have "n' = n" "so' = so"
      by (simp_all add: fill_chunks_no_samples)
    then show ?thesis
      using True len inv cs nb by (auto simp: concat_replicate_0)
  next
    case False
    then have k: "0 < unat lspc"
      by (simp add: unat_gt_0)
    have b: "\<forall>x\<in>set cs. x < unat ci + 1"
      using cs uci by simp
    note F = fill_chunks_success [OF r ls lc32 k len inv b]
    from F have n': "unat n' = unat n + ?j * unat lspc"
      and l: "length so' = length so"
      and bd: "0 < ?j \<longrightarrow> unat ci + ?j \<le> length c \<and> unat n' \<le> length szs"
      and t: "take (unat n') so'
            = map (spec_sample_offset c szs
                     (cs @ concat (map (replicate (unat lspc)) [unat ci + 1 ..< unat ci + 1 + ?j])))
                [0..<unat n']"
      by blast+
    have j: "unat lfc + ?j = Suc (unat cc)"
    proof (cases "?j = 0")
      case True
      then have "cc - lfc + 1 = 0"
        by (simp add: unat_eq_0)
      then have e: "lfc = cc + 1"
        by (simp add: algebra_simps)
      with lfc0 have "unat (cc + 1) = unat cc + 1"
        by (metis add.commute unatSuc Suc_eq_plus1)
      with e True show ?thesis by simp
    next
      case False
      with bd uci lc have le: "unat lfc \<le> unat cc"
        by simp
      then have "lfc \<le> cc"
        by (simp add: word_le_nat_alt)
      then have d: "unat (cc - lfc) = unat cc - unat lfc"
        by (simp add: unat_sub)
      have "0 < unat lfc"
        using lfc0 by (simp add: unat_gt_0)
      then have "unat cc - unat lfc + 1 < 2 ^ 32"
        using unat_u32_less [of cc] le by simp
      then have "?j = unat cc - unat lfc + 1"
        using d by (simp add: unat_word_ariths)
      with le show ?thesis by simp
    qed
    have up: "[unat ci + 1 ..< unat ci + 1 + ?j] = [unat lfc ..< Suc (unat cc)]"
      using uci j by simp
    have "unat n' \<le> length szs"
      using bd n' nb by (cases "?j = 0") simp_all
    moreover have "length (cs @ concat (map (replicate (unat lspc)) [unat lfc ..< Suc (unat cc)]))
                   = unat n'"
    proof -
      have "Suc (unat cc) - unat lfc = ?j"
        using j by (metis add_diff_cancel_left')
      then have "length (concat (map (replicate (unat lspc)) [unat lfc ..< Suc (unat cc)]))
                 = ?j * unat lspc"
        by (simp only: length_concat_replicate)
      then show ?thesis
        by (simp only: length_append n' len)
    qed
    moreover have "\<forall>x\<in>set (cs @ concat (map (replicate (unat lspc)) [unat lfc ..< Suc (unat cc)])).
               1 \<le> x \<and> x \<le> length c"
    proof -
      have "0 < unat lfc"
        using lfc0 by (simp add: unat_gt_0)
      then show ?thesis
        using cs lc by (auto simp del: upt_Suc)
    qed
    ultimately show ?thesis
      using l t unfolding up by blast
  qed
qed

lemma sample_index_of_offsets:
  assumes "sample_index_of alloc tk = Inr (so, sdt)"
  shows "stsc_sample_count tk = Inr (sampleCount tk)"
    and "fill_sample_offsets tk (replicate (unat (sampleCount tk)) 0) = Inr so"
  using assms
  by (auto simp: sample_index_of_def split: sum.splits if_splits)

lemma sample_offsets_spec:
  assumes ok: "sample_index_of alloc tk = Inr (so, sdt)"
    and asc: "stsc_ascending (stsc_entries tk)"
    and ct: "chunk_table_ok tk"
    and pos: "0 < unat (sampleCount tk)"
  shows "\<exists>c szs. chunkOffset tk = Some c \<and> sampleSize tk = Some szs
           \<and> unat (sampleCount tk) \<le> length szs
           \<and> length (expand_stsc (stsc_entries tk) (unat (chunkCount tk))) = unat (sampleCount tk)
           \<and> (\<forall>x\<in>set (expand_stsc (stsc_entries tk) (unat (chunkCount tk))).
                 1 \<le> x \<and> x \<le> length c)
           \<and> so = map (spec_sample_offset c szs
                          (expand_stsc (stsc_entries tk) (unat (chunkCount tk))))
                      [0..<unat (sampleCount tk)]"
proof -
  let ?N = "unat (sampleCount tk)"
  let ?so0 = "replicate ?N (0 :: u64)"
  let ?co = "chunkOffset tk" and ?ss = "sampleSize tk"
  note o = sample_index_of_offsets [OF ok]
  from o(2) obtain es lfc lspc ci n1 so1 ci2 n2 where
    at: "array_take (unat (sampleToChunkEntryCount tk)) (sampleToChunkEntries tk) = Inr es"
    and fe: "fill_entries ?co ?ss es 1 0 0 0 ?so0 = Inr (lfc, lspc, ci, n1, so1)"
    and fc: "fill_chunks ?co ?ss (unat (chunkCount tk - lfc + 1)) lspc ci n1 so1
             = Inr (ci2, n2, so)"
    by (auto simp: fill_sample_offsets_def split: sum.splits)
  have es: "es = stsc_entries tk"
    using array_take_Inr [OF at] by (simp add: stsc_entries_def split: option.splits)
  from fill_entries_count [OF fe] have cl: "stsc_count_loop es 1 0 0 = (lfc, lspc, n1)"
    and l1: "length so1 = ?N"
    by simp_all
  from fill_chunks_count [OF fc] have n2: "n2 = n1 + (chunkCount tk - lfc + 1) * lspc"
    and l2: "length so = ?N"
    using l1 by simp_all
  from o(1) at cl n2 have n2s: "n2 = sampleCount tk"
    by (simp add: stsc_sample_count_def)
  have some: "?co \<noteq> None \<and> ?ss \<noteq> None"
  proof (rule ccontr)
    assume "\<not> (?co \<noteq> None \<and> ?ss \<noteq> None)"
    then have m: "?co = None \<or> ?ss = None" by simp
    from fill_entries_missing [OF m fe] fill_chunks_missing [OF m fc] have "n2 = 0"
      by simp
    with n2s pos show False by simp
  qed
  then obtain c szs where c: "?co = Some c" and szs: "?ss = Some szs"
    by auto
  have lc: "length c = unat (chunkCount tk)"
    using ct c by (simp add: chunk_table_ok_def)
  then have lc32: "length c < 2 ^ 32"
    using unat_u32_less [of "chunkCount tk"] by simp
  have ls0: "length ?so0 < 2 ^ 32"
    using unat_u32_less [of "sampleCount tk"] by simp
  have srt: "sorted (map (\<lambda>e. unat (firstChunk e)) es)"
    and all1: "\<forall>e\<in>set es. 1 \<le> firstChunk e"
    using asc by (simp_all add: stsc_ascending_def es list_all_iff)
  define p where "p = \<lparr>firstChunk = 1, samplesPerChunk = 0, sampleDescriptionIndex = 0 :: u32\<rparr>"
  have E: "lfc = firstChunk (last (p # es)) \<and> lspc = samplesPerChunk (last (p # es))
         \<and> ci + 1 = lfc \<and> 1 \<le> lfc \<and> length so1 = length ?so0 \<and> unat n1 \<le> length szs
         \<and> length ([] @ expand_closed (p # es)) = unat n1
         \<and> take (unat n1) so1
            = map (spec_sample_offset c szs ([] @ expand_closed (p # es))) [0..<unat n1]
         \<and> (\<forall>x\<in>set ([] @ expand_closed (p # es)). 1 \<le> x \<and> x < unat lfc \<and> x \<le> length c)"
    by (rule fill_entries_success [OF fe [unfolded c szs] ls0 lc32 _ _ srt all1 _ _ _ _ p_def])
       simp_all
  from E [unfolded append_Nil]
  have E': "lfc = firstChunk (last (p # es))" "lspc = samplesPerChunk (last (p # es))"
    "ci + 1 = lfc" "1 \<le> lfc" "unat n1 \<le> length szs"
    "length (expand_closed (p # es)) = unat n1"
    "take (unat n1) so1 = map (spec_sample_offset c szs (expand_closed (p # es))) [0..<unat n1]"
    "\<forall>x\<in>set (expand_closed (p # es)). 1 \<le> x \<and> x < unat lfc \<and> x \<le> length c"
    by blast+
  have ls1: "length so1 < 2 ^ 32"
    using l1 ls0 by simp
  let ?cs = "expand_closed (p # es) @ concat (map (replicate (unat lspc))
               [unat lfc ..< Suc (unat (chunkCount tk))])"
  from fill_chunks_last [OF fc [unfolded c szs] ls1 lc E'(3,4,6,7,8,5)]
  have L: "unat n2 \<le> length szs" "length ?cs = unat n2"
    "take (unat n2) so = map (spec_sample_offset c szs ?cs) [0..<unat n2]"
    "\<forall>x\<in>set ?cs. 1 \<le> x \<and> x \<le> length c"
    by blast+
  have cs: "?cs = expand_stsc (stsc_entries tk) (unat (chunkCount tk))"
    unfolding E'(1,2) es [symmetric]
    by (rule expand_stsc_pending) (simp add: p_def)
  from L l2 n2s show ?thesis
    unfolding cs using c szs by simp
qed

subsection \<open>The loop over the tracks\<close>

lemma sample_index_of_cong:
  assumes "sample_tables a = sample_tables b"
  shows "sample_index_of alloc a = sample_index_of alloc b"
proof -
  from assms have e: "sampleCount a = sampleCount b" "sampleSize a = sampleSize b"
    "chunkCount a = chunkCount b" "chunkOffset a = chunkOffset b"
    "sampleToChunkEntryCount a = sampleToChunkEntryCount b"
    "sampleToChunkEntries a = sampleToChunkEntries b"
    "timeToSampleEntryCount a = timeToSampleEntryCount b"
    "timeToSampleEntries a = timeToSampleEntries b"
    by (simp_all add: sample_tables_def)
  have 1: "stsc_sample_count a = stsc_sample_count b"
    by (simp only: stsc_sample_count_def e)
  have 2: "fill_sample_offsets a so = fill_sample_offsets b so" for so
    by (simp only: fill_sample_offsets_def e)
  show ?thesis
    by (simp only: sample_index_of_def 1 2 e)
qed

lemma map_update_same:
  "f x = f (xs ! i) \<Longrightarrow> map f (xs[i := x]) = map f xs"
  by (simp add: map_update) (metis list_update_beyond list_update_id map_update not_le_imp_less nth_map length_map)

lemma link_track_fields:
  "map index_fields (fst (link_track t tks chap)) = map index_fields tks"
  by (auto simp: link_track_def Let_def map_update_same index_fields_def sample_tables_def
      split: option.splits)

lemma link_video_metadata_fields:
  "map index_fields (link_video_metadata l tks) = map index_fields tks"
  by (auto simp: link_video_metadata_def Let_def map_update_same index_fields_def
      sample_tables_def split: option.splits)

lemma build_sample_tables_Inr:
  "build_sample_tables alloc tk = Inr tk' \<Longrightarrow>
     \<exists>so sdt. sample_index_of alloc tk = Inr (so, sdt)
        \<and> tk' = tk\<lparr>sampleOffset := Some so, sampleDecodingTime := Some sdt\<rparr>"
  by (auto simp: build_sample_tables_def split: sum.splits)

lemma build_sample_tables_Inl:
  "build_sample_tables alloc tk = Inl e \<longleftrightarrow> sample_index_of alloc tk = Inl e"
  by (auto simp: build_sample_tables_def split: sum.splits)

lemma nth_map_eq: "map f xs = map f ys \<Longrightarrow> u < length xs \<Longrightarrow> f (xs ! u) = f (ys ! u)"
  by (metis length_map nth_map)

lemma build_tracks_loop_step:
  assumes "build_tracks_loop alloc (Suc n) t l tks = r" and "t < length tks"
  shows "(\<exists>e. sample_index_of alloc (tks ! t) = Inl e \<and> r = Inl e)
       \<or> (\<exists>so sdt l2 tks2. sample_index_of alloc (tks ! t) = Inr (so, sdt)
             \<and> r = build_tracks_loop alloc n (Suc t) l2 tks2
             \<and> length tks2 = length tks
             \<and> map sample_tables tks2 = map sample_tables tks
             \<and> sampleOffset (tks2 ! t) = Some so \<and> sampleDecodingTime (tks2 ! t) = Some sdt
             \<and> (\<forall>u < length tks. u \<noteq> t
                    \<longrightarrow> index_fields (tks2 ! u) = index_fields (tks ! u)))"
proof (cases "build_sample_tables alloc (tks ! t)")
  case (Inl e)
  with assms show ?thesis
    by (auto simp: build_sample_tables_Inl)
next
  case (Inr tk')
  from build_sample_tables_Inr [OF Inr] obtain so sdt where
    s: "sample_index_of alloc (tks ! t) = Inr (so, sdt)"
    and tk': "tk' = (tks ! t)\<lparr>sampleOffset := Some so, sampleDecodingTime := Some sdt\<rparr>"
    by blast
  define tks1 where "tks1 = tks[t := tk']"
  define l1 where "l1 = count_track (tk_type tk') t l"
  define tks2 where "tks2 = fst (link_track t tks1 (chapTk l1))"
  define l2 where "l2 = l1\<lparr>chapTk := snd (link_track t tks1 (chapTk l1))\<rparr>"
  have r: "r = build_tracks_loop alloc n (Suc t) l2 tks2"
    using assms(1) Inr
    by (simp add: tks1_def l1_def tks2_def l2_def Let_def split: prod.splits)
  have m: "map index_fields tks2 = map index_fields tks1"
    by (simp add: tks2_def link_track_fields)
  then have len: "length tks2 = length tks"
    by (metis length_map tks1_def length_list_update)
  have f: "index_fields (tks2 ! u) = index_fields (tks1 ! u)" if "u < length tks" for u
    using m that len by (metis nth_map_eq)
  have t1: "tks1 ! t = tk'"
    using assms(2) by (simp add: tks1_def)
  have o: "tks1 ! u = tks ! u" if "u \<noteq> t" for u
    using that by (simp add: tks1_def)
  have st: "map sample_tables tks2 = map sample_tables tks"
  proof (intro nth_equalityI)
    show "length (map sample_tables tks2) = length (map sample_tables tks)"
      using len by simp
  next
    fix u
    assume "u < length (map sample_tables tks2)"
    then have u: "u < length tks" using len by simp
    have "sample_tables (tks2 ! u) = sample_tables (tks ! u)"
    proof (cases "u = t")
      case True
      with f [OF u] t1 show ?thesis
        by (simp add: index_fields_def tk' sample_tables_def)
    next
      case False
      with f [OF u] o show ?thesis
        by (simp add: index_fields_def)
    qed
    with u len show "map sample_tables tks2 ! u = map sample_tables tks ! u"
      by simp
  qed
  have so: "sampleOffset (tks2 ! t) = Some so \<and> sampleDecodingTime (tks2 ! t) = Some sdt"
    using f [OF assms(2)] t1 by (simp add: index_fields_def tk')
  have oth: "\<forall>u < length tks. u \<noteq> t \<longrightarrow> index_fields (tks2 ! u) = index_fields (tks ! u)"
    using f o by simp
  from s r len st so oth show ?thesis
    by blast
qed

lemma build_tracks_loop_success:
  assumes "build_tracks_loop alloc n t l tks = Inr (l', tks')" and "t + n \<le> length tks"
  shows "length tks' = length tks \<and> map sample_tables tks' = map sample_tables tks
       \<and> (\<forall>u. t \<le> u \<and> u < t + n \<longrightarrow>
             (\<exists>so sdt. sample_index_of alloc (tks ! u) = Inr (so, sdt)
                \<and> sampleOffset (tks' ! u) = Some so \<and> sampleDecodingTime (tks' ! u) = Some sdt))
       \<and> (\<forall>u < length tks. \<not> (t \<le> u \<and> u < t + n)
             \<longrightarrow> index_fields (tks' ! u) = index_fields (tks ! u))"
  using assms
proof (induction n arbitrary: t l tks)
  case 0
  then show ?case by auto
next
  case (Suc n)
  from Suc.prems(2) have t: "t < length tks" by simp
  from build_tracks_loop_step [OF Suc.prems(1) t] obtain so sdt l2 tks2 where
    s: "sample_index_of alloc (tks ! t) = Inr (so, sdt)"
    and r: "build_tracks_loop alloc n (Suc t) l2 tks2 = Inr (l', tks')"
    and len: "length tks2 = length tks"
    and st: "map sample_tables tks2 = map sample_tables tks"
    and so: "sampleOffset (tks2 ! t) = Some so" "sampleDecodingTime (tks2 ! t) = Some sdt"
    and oth: "\<forall>u < length tks. u \<noteq> t \<longrightarrow> index_fields (tks2 ! u) = index_fields (tks ! u)"
    by auto
  have b: "Suc t + n \<le> length tks2"
    using Suc.prems(2) len by simp
  note IH = Suc.IH [OF r b]
  from IH have l: "length tks' = length tks" and m: "map sample_tables tks' = map sample_tables tks"
    using len st by simp_all
  from IH have i3: "\<forall>u. Suc t \<le> u \<and> u < Suc t + n \<longrightarrow>
             (\<exists>so sdt. sample_index_of alloc (tks2 ! u) = Inr (so, sdt)
                \<and> sampleOffset (tks' ! u) = Some so \<and> sampleDecodingTime (tks' ! u) = Some sdt)"
    and i4: "\<forall>u < length tks2. \<not> (Suc t \<le> u \<and> u < Suc t + n)
             \<longrightarrow> index_fields (tks' ! u) = index_fields (tks2 ! u)"
    by blast+
  have c: "sample_index_of alloc (tks2 ! u) = sample_index_of alloc (tks ! u)"
    if "u < length tks" for u
    using that st len by (intro sample_index_of_cong) (metis nth_map_eq)
  have p3: "\<forall>u. t \<le> u \<and> u < t + Suc n \<longrightarrow>
             (\<exists>so sdt. sample_index_of alloc (tks ! u) = Inr (so, sdt)
                \<and> sampleOffset (tks' ! u) = Some so \<and> sampleDecodingTime (tks' ! u) = Some sdt)"
  proof (intro allI impI)
    fix u
    assume u: "t \<le> u \<and> u < t + Suc n"
    show "\<exists>so sdt. sample_index_of alloc (tks ! u) = Inr (so, sdt)
                \<and> sampleOffset (tks' ! u) = Some so \<and> sampleDecodingTime (tks' ! u) = Some sdt"
    proof (cases "u = t")
      case True
      from i4 t len have "index_fields (tks' ! t) = index_fields (tks2 ! t)"
        by simp
      with so s True show ?thesis
        by (simp add: index_fields_def)
    next
      case False
      with u have u': "Suc t \<le> u \<and> u < Suc t + n" by simp
      with Suc.prems(2) have "u < length tks" by simp
      with i3 u' c [of u] show ?thesis by metis
    qed
  qed
  have p4: "\<forall>u < length tks. \<not> (t \<le> u \<and> u < t + Suc n)
             \<longrightarrow> index_fields (tks' ! u) = index_fields (tks ! u)"
    using i4 oth len by auto
  from l m p3 p4 show ?case by blast
qed


subsection \<open>Track building and opening\<close>

lemma fseeko_set_keeps:
  "fseeko_set d off = Inr d1 \<Longrightarrow> track d1 = track d \<and> fileSize d1 = fileSize d"
  by (auto simp: fseeko_set_def split: if_splits)


lemma fread_item_keeps:
  "fread_item d n = (r, d2) \<Longrightarrow> track d2 = track d \<and> fileSize d2 = fileSize d"
  by (auto simp: fread_item_def split: if_splits)


lemma build_chapters_loop_keeps:
  "build_chapters_loop alloc chap n i d = Inr d' \<Longrightarrow>
     track d' = track d \<and> fileSize d' = fileSize d"
proof (induction n arbitrary: i d)
  case 0
  then show ?case by simp
next
  case (Suc n)
  from Suc.prems show ?case
    by (auto simp: split: sum.splits prod.splits option.splits if_splits
        dest!: fseeko_set_keeps fread_item_keeps Suc.IH)
qed


lemma metadata_entries_error:
  "metadata_entries n i keys vals = Inl e \<Longrightarrow> e = UNDEFINED"
proof (induction n arbitrary: i)
  case 0
  then show ?case by simp
next
  case (Suc n)
  from Suc.prems show ?case
    by (auto simp: split: sum.splits prod.splits option.splits if_splits
        dest!: array_get_Inl Suc.IH)
qed

lemma select_cover_keeps:
  "track (select_cover d) = track d \<and> fileSize (select_cover d) = fileSize d"
  by (simp add: select_cover_def)

lemma build_metadata_keeps:
  "mp4_demux_build_metadata alloc d = Inr d' \<Longrightarrow>
     track d' = track d \<and> fileSize d' = fileSize d"
  by (auto simp: mp4_demux_build_metadata_def Let_def select_cover_keeps
      split: sum.splits if_splits)

lemma build_metadata_error:
  "mp4_demux_build_metadata alloc d = Inl e \<Longrightarrow> e \<noteq> EPROTO"
  by (auto simp: mp4_demux_build_metadata_def Let_def
      split: sum.splits if_splits dest!: metadata_entries_error)

lemma build_tracks_success:
  assumes "mp4_demux_build_tracks alloc demux = Inr d'"
  shows "fileSize d' = fileSize demux \<and> length (track d') = length (track demux)
       \<and> map sample_tables (track d') = map sample_tables (track demux)
       \<and> (\<forall>u<length (track demux). \<exists>so sdt.
             sample_index_of alloc (track demux ! u) = Inr (so, sdt)
             \<and> sampleOffset (track d' ! u) = Some so
             \<and> sampleDecodingTime (track d' ! u) = Some sdt)"
proof -
  from assms obtain l tks where
    loop: "build_tracks_loop alloc (length (track demux)) 0 build_locals_init (track demux)
             = Inr (l, tks)"
    by (auto simp: mp4_demux_build_tracks_def split: sum.splits)
  define d1 where "d1 = demux\<lparr>track := link_video_metadata l tks\<rparr>"
  from assms loop have "d' = d1 \<or> (\<exists>c n. build_chapters_loop alloc c n 0 d1 = Inr d')"
    by (auto simp: mp4_demux_build_tracks_def Let_def d1_def split: option.splits)
  then have k: "track d' = track d1 \<and> fileSize d' = fileSize d1"
    using build_chapters_loop_keeps by blast
  have t: "track d' = link_video_metadata l tks" and f: "fileSize d' = fileSize demux"
    using k by (simp_all add: d1_def)
  from build_tracks_loop_success [OF loop] have
    len: "length tks = length (track demux)"
    and st: "map sample_tables tks = map sample_tables (track demux)"
    and ix: "\<forall>u. 0 \<le> u \<and> u < 0 + length (track demux) \<longrightarrow>
               (\<exists>so sdt. sample_index_of alloc (track demux ! u) = Inr (so, sdt)
                  \<and> sampleOffset (tks ! u) = Some so \<and> sampleDecodingTime (tks ! u) = Some sdt)"
    by simp_all
  have m: "map index_fields (track d') = map index_fields tks"
    by (simp only: t link_video_metadata_fields)
  then have len': "length (track d') = length tks"
    using map_eq_imp_length_eq by blast
  have e: "index_fields (track d' ! u) = index_fields (tks ! u)" if "u < length tks" for u
    using nth_map_eq [OF m, of u] that len' by simp
  have st': "map sample_tables (track d') = map sample_tables (track demux)"
  proof (rule nth_equalityI)
    show "length (map sample_tables (track d')) = length (map sample_tables (track demux))"
      by (simp add: len len')
  next
    fix u assume "u < length (map sample_tables (track d'))"
    then have u: "u < length tks" by (simp add: len')
    from e [OF u] have "sample_tables (track d' ! u) = sample_tables (tks ! u)"
      by (simp add: index_fields_def)
    moreover from nth_map_eq [OF st, of u] u
    have "sample_tables (tks ! u) = sample_tables (track demux ! u)" by simp
    ultimately show "map sample_tables (track d') ! u = map sample_tables (track demux) ! u"
      using u len len' by simp
  qed
  have ix': "\<forall>u<length (track demux). \<exists>so sdt.
             sample_index_of alloc (track demux ! u) = Inr (so, sdt)
             \<and> sampleOffset (track d' ! u) = Some so
             \<and> sampleDecodingTime (track d' ! u) = Some sdt"
  proof (intro allI impI)
    fix u assume u: "u < length (track demux)"
    with ix obtain so sdt where
      s: "sample_index_of alloc (track demux ! u) = Inr (so, sdt)"
         "sampleOffset (tks ! u) = Some so" "sampleDecodingTime (tks ! u) = Some sdt"
      by auto
    from e [of u] u len have "sampleOffset (track d' ! u) = sampleOffset (tks ! u)"
      "sampleDecodingTime (track d' ! u) = sampleDecodingTime (tks ! u)"
      by (simp_all add: index_fields_def)
    with s show "\<exists>so sdt. sample_index_of alloc (track demux ! u) = Inr (so, sdt)
             \<and> sampleOffset (track d' ! u) = Some so
             \<and> sampleDecodingTime (track d' ! u) = Some sdt"
      by simp
  qed
  from f len len' st' ix' show ?thesis by simp
qed


lemma open_success:
  assumes "mp4_demux_open alloc (Inr demux) = Inr d'"
  shows "fileSize d' = fileSize demux \<and> length (track d') = length (track demux)
       \<and> map sample_tables (track d') = map sample_tables (track demux)
       \<and> (\<forall>u<length (track demux). \<exists>so sdt.
             sample_index_of alloc (track demux ! u) = Inr (so, sdt)
             \<and> sampleOffset (track d' ! u) = Some so
             \<and> sampleDecodingTime (track d' ! u) = Some sdt)"
proof -
  from assms obtain d1 where b: "mp4_demux_build_tracks alloc demux = Inr d1"
    and m: "mp4_demux_build_metadata alloc d1 = Inr d'"
    by (auto simp: mp4_demux_open_def split: sum.splits)
  from build_metadata_keeps [OF m] have "track d' = track d1" "fileSize d' = fileSize d1"
    by simp_all
  with build_tracks_success [OF b] show ?thesis by simp
qed

subsection \<open>The sample count checks\<close>














lemma scenario_b_stsc: "stsc_mismatch (track (scenario_b_demux 15 15) ! 0)"
  by code_simp





subsection \<open>The sample offsets after opening\<close>

lemma sample_tables_fields:
  assumes "sample_tables a = sample_tables b"
  shows "sampleCount a = sampleCount b" "sampleSize a = sampleSize b"
    "chunkCount a = chunkCount b" "chunkOffset a = chunkOffset b"
    "stsc_entries a = stsc_entries b"
  using assms by (auto simp: sample_tables_def stsc_entries_def split: option.splits)

lemma overlap_index:
  "sample_index_of (\<lambda>n. True) (track overlap_demux ! 0) = Inr ([100, 100], [0, 1])"
proof -
  have c: "stsc_sample_count (track overlap_demux ! 0) = Inr 2"
    by (simp add: overlap_demux_def demux_zero_def track_zero_def stsc_sample_count_def
        array_take_def)
  have n: "unat (1 - 2 :: u32) = 4294967295"
    by (simp add: unsigned_minus_1_eq_mask mask_eq_exp_minus_1)
  have f: "fill_sample_offsets (track overlap_demux ! 0) [0, 0] = Inr [100, 100]"
    by (simp add: overlap_demux_def demux_zero_def track_zero_def fill_sample_offsets_def
        array_take_def fill_chunks_no_samples array_get_def n)
  have r: "replicate 2 (0 :: u64) = [0, 0]"
    by code_simp
  have t: "array_take (unat (timeToSampleEntryCount (track overlap_demux ! 0)))
             (timeToSampleEntries (track overlap_demux ! 0))
           = Inr [\<lparr>tts_sampleCount = 2, sampleDelta = 1\<rparr>]"
    by (simp add: overlap_demux_def demux_zero_def track_zero_def array_take_def)
  have s: "sampleCount (track overlap_demux ! 0) = 2"
    by (simp add: overlap_demux_def demux_zero_def track_zero_def)
  have ft: "fill_times [\<lparr>tts_sampleCount = 2, sampleDelta = 1\<rparr>] 0 0 [0, 0] = Inr [0, 1]"
    by code_simp
  show ?thesis
    by (simp add: sample_index_of_def c s r f t ft del: fill_times.simps)
qed

lemma overlap_build_tracks:
  "mp4_demux_build_tracks (\<lambda>n. True) overlap_demux
   = Inr (overlap_demux\<lparr>track := [(track overlap_demux ! 0)
            \<lparr>sampleOffset := Some [100, 100], sampleDecodingTime := Some [0, 1]\<rparr>]\<rparr>)"
proof -
  have len: "length (track overlap_demux) = Suc 0"
    by (simp add: overlap_demux_def)
  have tks: "track overlap_demux = [track overlap_demux ! 0]"
    by (simp add: overlap_demux_def)
  have b: "build_sample_tables (\<lambda>n. True) (track overlap_demux ! 0)
           = Inr ((track overlap_demux ! 0)
                    \<lparr>sampleOffset := Some [100, 100], sampleDecodingTime := Some [0, 1]\<rparr>)"
    by (simp add: build_sample_tables_def overlap_index)
  have f: "tk_type (track overlap_demux ! 0) = MP4_TRACK_TYPE_VIDEO"
    "referenceType (track overlap_demux ! 0) = 0"
    by (simp_all add: overlap_demux_def track_zero_def)
  have l: "(track overlap_demux)[0 := x] = [x]" for x
    by (subst tks) simp
  show ?thesis
    by (simp add: mp4_demux_build_tracks_def len b f l Let_def count_track_def link_track_def
        link_video_metadata_def build_locals_init_def)
qed

lemma overlap_open:
  "opened_sample_offsets (\<lambda>n. True) overlap_demux 0 = Inr (Some [100, 100])"
proof -
  have m: "metaMetadataCount overlap_demux = 0" "udtaMetadataCount overlap_demux = 0"
    "udtaLocationValue overlap_demux = None" "metaCoverSize overlap_demux = 0"
    "udtaCoverSize overlap_demux = 0"
    by (simp_all add: overlap_demux_def demux_zero_def)
  show ?thesis
    by (simp add: opened_sample_offsets_def mp4_demux_open_def overlap_build_tracks
        mp4_demux_build_metadata_def m location_entry_def select_cover_def Let_def)
qed

lemma scenario_b_opens:
  "\<not> isl (mp4_demux_open (\<lambda>n. True) (Inr (scenario_b_demux 16 16)))"
  by code_simp

lemma scenario_b_tables:
  "0 < length (track (scenario_b_demux 16 16))
   \<and> stsc_ascending (stsc_entries (track (scenario_b_demux 16 16) ! 0))
   \<and> chunk_table_ok (track (scenario_b_demux 16 16) ! 0)
   \<and> 13 < unat (sampleCount (track (scenario_b_demux 16 16) ! 0))"
  by code_simp

text \<open>
  C1, as stated: in every file that opens, the offset of a sample is the offset of its chunk
  plus the sizes of the samples before it in the same chunk, the chunks being given by the
  expansion of the \<^verbatim>\<open>stsc\<close> entries. The code does not ask the entries to be in ascending
  order. With the entries (1, 1, 1), (2, 0, 1), (1, 1, 1) and one chunk at offset 100 the
  file opens, the expansion puts both samples into chunk 1, so the second sample (after a
  first one of 10 bytes) would be at 110; the code has restarted at the chunk and stores 100.
\<close>

theorem sample_offsets_overlap_counterexample:
  "opened_sample_offsets always_alloc overlap_demux 0 = Inr (Some [100, 100])
   \<and> chunkOffset (track overlap_demux ! 0) = Some [100]
   \<and> sampleSize (track overlap_demux ! 0) = Some [10, 20]
   \<and> expand_stsc (stsc_entries (track overlap_demux ! 0))
        (unat (chunkCount (track overlap_demux ! 0))) = [1, 1]
   \<and> spec_sample_offset [100] [10, 20] [1, 1] 1 = 110"
proof -
  have "chunkOffset (track overlap_demux ! 0) = Some [100]
   \<and> sampleSize (track overlap_demux ! 0) = Some [10, 20]
   \<and> expand_stsc (stsc_entries (track overlap_demux ! 0))
        (unat (chunkCount (track overlap_demux ! 0))) = [1, 1]
   \<and> spec_sample_offset [100] [10, 20] [1, 1] 1 = 110"
    by code_simp
  with overlap_open show ?thesis by (simp add: always_alloc_eq)
qed

text \<open>
  C1, amended: in every file that opens, for every track whose \<^verbatim>\<open>stsc\<close> entries have
  \<^verbatim>\<open>first_chunk\<close> at least 1 and not decreasing, and whose chunk offset table has
  \<^verbatim>\<open>chunkCount\<close> elements, the array of sample offsets has \<^verbatim>\<open>sampleCount\<close> elements, the
  expansion of the \<^verbatim>\<open>stsc\<close> entries against the chunk count gives \<^verbatim>\<open>sampleCount\<close> samples,
  and the offset of sample \<open>i\<close> is the offset of its chunk plus the sizes of the samples
  before \<open>i\<close> in the same chunk (a 64-bit unsigned sum).
\<close>

theorem sample_offsets_expansion:
  assumes op: "mp4_demux_open alloc (Inr demux) = Inr d"
    and u: "u < length (track demux)"
    and asc: "stsc_ascending (stsc_entries (track demux ! u))"
    and ct: "chunk_table_ok (track demux ! u)"
    and i: "i < unat (sampleCount (track demux ! u))"
  shows "\<exists>co ss so. chunkOffset (track d ! u) = Some co \<and> sampleSize (track d ! u) = Some ss
           \<and> sampleOffset (track d ! u) = Some so
           \<and> length so = unat (sampleCount (track d ! u))
           \<and> length (expand_stsc (stsc_entries (track d ! u)) (unat (chunkCount (track d ! u))))
               = unat (sampleCount (track d ! u))
           \<and> so ! i = spec_sample_offset co ss
                         (expand_stsc (stsc_entries (track d ! u))
                            (unat (chunkCount (track d ! u)))) i"
proof -
  from open_success [OF op] u obtain so sdt where
    st: "map sample_tables (track d) = map sample_tables (track demux)"
    and ix: "sample_index_of alloc (track demux ! u) = Inr (so, sdt)"
    and so: "sampleOffset (track d ! u) = Some so"
    by blast
  from st have "length (track d) = length (track demux)"
    using map_eq_imp_length_eq by blast
  with nth_map_eq [OF st, of u] u
  have e: "sample_tables (track d ! u) = sample_tables (track demux ! u)"
    by simp
  note f = sample_tables_fields [OF e]
  from i have pos: "0 < unat (sampleCount (track demux ! u))" by simp
  from sample_offsets_spec [OF ix asc ct pos] obtain c szs where
    c: "chunkOffset (track demux ! u) = Some c" and s: "sampleSize (track demux ! u) = Some szs"
    and len: "length (expand_stsc (stsc_entries (track demux ! u))
                (unat (chunkCount (track demux ! u)))) = unat (sampleCount (track demux ! u))"
    and eq: "so = map (spec_sample_offset c szs
                        (expand_stsc (stsc_entries (track demux ! u))
                           (unat (chunkCount (track demux ! u)))))
                    [0..<unat (sampleCount (track demux ! u))]"
    by blast
  from eq have l: "length so = unat (sampleCount (track demux ! u))" by simp
  from eq i have n: "so ! i = spec_sample_offset c szs
                        (expand_stsc (stsc_entries (track demux ! u))
                           (unat (chunkCount (track demux ! u)))) i"
    by simp
  from c s so l len n show ?thesis
    by (simp only: f) blast
qed

theorem sample_offsets_expansion_witness:
  "\<exists>d. mp4_demux_open (\<lambda>n. True) (Inr (scenario_b_demux 16 16)) = Inr d
     \<and> (\<exists>co ss so. chunkOffset (track d ! 0) = Some co \<and> sampleSize (track d ! 0) = Some ss
           \<and> sampleOffset (track d ! 0) = Some so
           \<and> length so = unat (sampleCount (track d ! 0))
           \<and> length (expand_stsc (stsc_entries (track d ! 0)) (unat (chunkCount (track d ! 0))))
               = unat (sampleCount (track d ! 0))
           \<and> so ! 13 = spec_sample_offset co ss
                         (expand_stsc (stsc_entries (track d ! 0))
                            (unat (chunkCount (track d ! 0)))) 13)"
proof -
  from scenario_b_opens obtain d where
    d: "mp4_demux_open (\<lambda>n. True) (Inr (scenario_b_demux 16 16)) = Inr d"
    by (cases "mp4_demux_open (\<lambda>n. True) (Inr (scenario_b_demux 16 16))") auto
  from scenario_b_tables
    sample_offsets_expansion [OF d, of 0 13]
  show ?thesis using d by blast
qed

subsection \<open>The byte ranges of the samples\<close>

lemma uint_sum_list_le:
  "uint (sum_list (ws :: 'a::len word list)) \<le> sum_list (map uint ws)"
proof (induction ws)
  case Nil
  then show ?case by simp
next
  case (Cons w ws)
  have "uint (w + sum_list ws) \<le> uint w + uint (sum_list ws)"
    by (rule uint_add_le)
  with Cons show ?case by simp
qed

lemma uint_ucast_32_64: "uint (ucast (x :: u32) :: u64) = uint x"
  by (simp add: uint_up_ucast is_up)

lemma filter_sum_upto:
  assumes "i < n" and "P i" and "\<And>j. 0 \<le> (f j :: int)"
  shows "sum_list (map f (filter P [0..<i])) + f i \<le> sum_list (map f (filter P [0..<n]))"
proof -
  from assms(1) have "[0..<n] = [0..<i] @ i # [Suc i..<n]"
    by (metis le_add1 less_imp_add_positive upt_add_eq_append upt_conv_Cons zero_le
        add.left_neutral less_or_eq_imp_le)
  then have "sum_list (map f (filter P [0..<n]))
             = sum_list (map f (filter P [0..<i])) + f i
               + sum_list (map f (filter P [Suc i..<n]))"
    using assms(2) by simp
  moreover have "0 \<le> sum_list (map f (filter P [Suc i..<n]))"
    by (rule sum_list_nonneg) (auto simp: assms(3))
  ultimately show ?thesis by simp
qed

lemma spec_sample_offset_within:
  assumes "i < length chunks"
  shows "uint (spec_sample_offset co ss chunks i) + uint (ss ! i)
         \<le> uint (co ! (chunks ! i - 1))
            + sum_list (map (\<lambda>j. uint (ss ! j))
                          (filter (\<lambda>j. chunks ! j = chunks ! i) [0..<length chunks]))"
proof -
  let ?P = "\<lambda>j. chunks ! j = chunks ! i"
  have "uint (spec_sample_offset co ss chunks i)
        \<le> uint (co ! (chunks ! i - 1))
           + uint (sum_list (map (\<lambda>j. ucast (ss ! j) :: u64) (filter ?P [0..<i])))"
    unfolding spec_sample_offset_def by (rule uint_add_le)
  also have "uint (sum_list (map (\<lambda>j. ucast (ss ! j) :: u64) (filter ?P [0..<i])))
             \<le> sum_list (map uint (map (\<lambda>j. ucast (ss ! j) :: u64) (filter ?P [0..<i])))"
    by (rule uint_sum_list_le)
  also have "map uint (map (\<lambda>j. ucast (ss ! j) :: u64) (filter ?P [0..<i]))
             = map (\<lambda>j. uint (ss ! j)) (filter ?P [0..<i])"
    by (simp add: uint_ucast_32_64)
  finally have "uint (spec_sample_offset co ss chunks i)
        \<le> uint (co ! (chunks ! i - 1))
           + sum_list (map (\<lambda>j. uint (ss ! j)) (filter ?P [0..<i]))"
    by simp
  moreover from filter_sum_upto [of i "length chunks" ?P "\<lambda>j. uint (ss ! j)"] assms
  have "sum_list (map (\<lambda>j. uint (ss ! j)) (filter ?P [0..<i])) + uint (ss ! i)
        \<le> sum_list (map (\<lambda>j. uint (ss ! j)) (filter ?P [0..<length chunks]))"
    by simp
  ultimately show ?thesis by simp
qed

lemma one_chunk_opens:
  "\<not> isl (mp4_demux_open (\<lambda>n. True) (Inr (one_chunk_demux 100)))"
  by code_simp

lemma one_chunk_tables:
  "0 < length (track (one_chunk_demux 100))
   \<and> stsc_ascending (stsc_entries (track (one_chunk_demux 100) ! 0))
   \<and> chunk_table_ok (track (one_chunk_demux 100) ! 0)
   \<and> chunks_within_file (one_chunk_demux 100) (track (one_chunk_demux 100) ! 0)
   \<and> 1 < unat (sampleCount (track (one_chunk_demux 100) ! 0))"
  by code_simp

text \<open>
  C3, as stated: a file opens only when every sample lies within it,
  \<^verbatim>\<open>sample_offset[i] + sample_size[i] \<le> file_size\<close>. The code compares no offset with the size
  of the file: a file of 1000 bytes whose only chunk is at offset 100000 opens, with its
  two samples at 100000 and 100010.
\<close>

theorem sample_range_beyond_file_counterexample:
  "opened_sample_offsets always_alloc (one_chunk_demux 100000) 0 = Inr (Some [100000, 100010])
   \<and> opened_sample_sizes always_alloc (one_chunk_demux 100000) 0 = Inr (Some [10, 20])
   \<and> opened_file_size always_alloc (one_chunk_demux 100000) = Inr 1000"
  by code_simp

text \<open>
  C3, amended: \<^verbatim>\<open>mp4_demux_open\<close> does not check the byte ranges; they lie within the file when
  the chunks do. In every file that opens, for every track whose \<^verbatim>\<open>stsc\<close> entries have
  \<^verbatim>\<open>first_chunk\<close> at least 1 and not decreasing, whose chunk offset table has \<^verbatim>\<open>chunkCount\<close>
  elements, and each of whose chunks ends (its offset plus the sizes of its samples) at or
  before the size of the file, every sample \<open>i\<close> has
  \<^verbatim>\<open>sample_offset[i] + sample_size[i] \<le> file_size\<close>, as a sum of integers without wrap-around.
\<close>

theorem sample_ranges_within_file:
  assumes op: "mp4_demux_open alloc (Inr demux) = Inr d"
    and u: "u < length (track demux)"
    and asc: "stsc_ascending (stsc_entries (track demux ! u))"
    and ct: "chunk_table_ok (track demux ! u)"
    and cw: "chunks_within_file demux (track demux ! u)"
    and i: "i < unat (sampleCount (track demux ! u))"
  shows "\<exists>ss so. sampleSize (track d ! u) = Some ss \<and> sampleOffset (track d ! u) = Some so
           \<and> i < length so \<and> i < length ss
           \<and> uint (so ! i) + uint (ss ! i) \<le> fileSize d"
proof -
  let ?tk = "track demux ! u"
  let ?chunks = "expand_stsc (stsc_entries ?tk) (unat (chunkCount ?tk))"
  from open_success [OF op] u obtain so sdt where
    fs: "fileSize d = fileSize demux"
    and st: "map sample_tables (track d) = map sample_tables (track demux)"
    and ix: "sample_index_of alloc ?tk = Inr (so, sdt)"
    and so: "sampleOffset (track d ! u) = Some so"
    by blast
  from st have "length (track d) = length (track demux)"
    using map_eq_imp_length_eq by blast
  with nth_map_eq [OF st, of u] u
  have e: "sample_tables (track d ! u) = sample_tables ?tk"
    by simp
  note f = sample_tables_fields [OF e]
  from i have pos: "0 < unat (sampleCount ?tk)" by simp
  from sample_offsets_spec [OF ix asc ct pos] obtain c szs where
    c: "chunkOffset ?tk = Some c" and s: "sampleSize ?tk = Some szs"
    and ls: "unat (sampleCount ?tk) \<le> length szs"
    and len: "length ?chunks = unat (sampleCount ?tk)"
    and rng: "\<forall>x\<in>set ?chunks. 1 \<le> x \<and> x \<le> length c"
    and eq: "so = map (spec_sample_offset c szs ?chunks) [0..<unat (sampleCount ?tk)]"
    by blast
  from eq have l: "length so = unat (sampleCount ?tk)" by simp
  from eq i have n: "so ! i = spec_sample_offset c szs ?chunks i"
    by simp
  from i len have il: "i < length ?chunks" by simp
  then have "?chunks ! i \<in> set ?chunks" by simp
  with rng have "1 \<le> ?chunks ! i \<and> ?chunks ! i \<le> length c" by blast
  moreover from ct c have "length c = unat (chunkCount ?tk)"
    by (simp add: chunk_table_ok_def)
  ultimately have "?chunks ! i \<in> set [1 ..< Suc (unat (chunkCount ?tk))]"
    by (simp del: upt_Suc)
  with cw have "chunk_end ?tk (?chunks ! i) \<le> fileSize demux"
    unfolding chunks_within_file_def list_all_iff by blast
  moreover have "chunk_end ?tk (?chunks ! i)
      = uint (c ! (?chunks ! i - 1))
        + sum_list (map (\<lambda>j. uint (szs ! j))
                      (filter (\<lambda>j. ?chunks ! j = ?chunks ! i) [0..<length ?chunks]))"
    by (simp add: chunk_end_def c s Let_def)
  moreover note spec_sample_offset_within [OF il, of c szs]
  ultimately have "uint (so ! i) + uint (szs ! i) \<le> fileSize d"
    by (simp only: n fs)
  with s so l ls i show ?thesis
    by (simp add: f)
qed

theorem sample_ranges_within_file_witness:
  "\<exists>d. mp4_demux_open (\<lambda>n. True) (Inr (one_chunk_demux 100)) = Inr d
     \<and> (\<exists>ss so. sampleSize (track d ! 0) = Some ss \<and> sampleOffset (track d ! 0) = Some so
           \<and> 1 < length so \<and> 1 < length ss
           \<and> uint (so ! 1) + uint (ss ! 1) \<le> fileSize d)"
proof -
  from one_chunk_opens obtain d where
    d: "mp4_demux_open (\<lambda>n. True) (Inr (one_chunk_demux 100)) = Inr d"
    by (cases "mp4_demux_open (\<lambda>n. True) (Inr (one_chunk_demux 100))") auto
  from one_chunk_tables
    sample_ranges_within_file [OF d, of 0 1]
  show ?thesis using d by blast
qed

subsection \<open>The tables of a track and their boxes\<close>

























end
